theory Spec2Isabelle
  imports Complex_Main "HOL-Library.Char_ord" "HOL-Library.List_Lexorder" "HOL-Library.Log_Nat"
    "HOL-Library.Multiset"
begin

section \<open>Python values and arithmetic\<close>

text \<open>
  The scorer and the matcher are Python. Their numbers are Python \<open>int\<close>s (unbounded) and
  \<open>float\<close>s (IEEE binary64). A float is modelled by the rational it denotes; every float
  operation is the exact operation followed by rounding to the nearest number with a
  53-bit significand, ties to even. The exponent range is taken as unbounded (no overflow
  to infinity, no subnormals): all values of this program lie far inside the normal range.
\<close>

datatype error = TypeError | IndexError | AttributeError | ZeroDivisionError | UnboundLocalError
  | UndefinedCast

text \<open>
  The first five are the Python exceptions this code can raise. \<open>UndefinedCast\<close> is not an
  exception: it marks a run in which numpy takes the square root of a negative number and
  converts the NaN to an integer, or multiplies beyond 64 bits; what numpy returns then
  depends on the platform, and the model does not follow such a run further.
\<close>

datatype pynum = PInt int | PFloat rat

definition pow2 :: "int \<Rightarrow> rat" where
  "pow2 e = (if 0 \<le> e then 2 ^ nat e else 1 / 2 ^ nat (- e))"

definition round_half_even :: "rat \<Rightarrow> int" where
  "round_half_even x =
     (let f = \<lfloor>x\<rfloor>; r = x - of_int f
      in if r < 1 / 2 then f else if 1 / 2 < r then f + 1 else if even f then f else f + 1)"

definition ilog2 :: "rat \<Rightarrow> int" where
  \<comment> \<open>for \<open>0 < x\<close>: the exponent \<open>e\<close> with \<open>2 ^ e \<le> x < 2 ^ (e + 1)\<close>\<close>
  "ilog2 x =
     (let (p, q) = quotient_of x; a = bitlen p - bitlen q
      in if pow2 a \<le> x then a else a - 1)"

definition round_double :: "rat \<Rightarrow> rat" where
  "round_double x =
     (if x = 0 then 0
      else let u = pow2 (ilog2 \<bar>x\<bar> - 52) in of_int (round_half_even (x / u)) * u)"

fun exact_val :: "pynum \<Rightarrow> rat" where
  "exact_val (PInt i) = of_int i"
| "exact_val (PFloat x) = x"

fun to_float :: "pynum \<Rightarrow> rat" where
  "to_float (PInt i) = round_double (of_int i)"
| "to_float (PFloat x) = x"

fun py_add :: "pynum \<Rightarrow> pynum \<Rightarrow> pynum" where
  "py_add (PInt a) (PInt b) = PInt (a + b)"
| "py_add x y = PFloat (round_double (to_float x + to_float y))"

fun py_mul :: "pynum \<Rightarrow> pynum \<Rightarrow> pynum" where
  "py_mul (PInt a) (PInt b) = PInt (a * b)"
| "py_mul x y = PFloat (round_double (to_float x * to_float y))"

fun py_truediv :: "pynum \<Rightarrow> pynum \<Rightarrow> error + pynum" where
  "py_truediv (PInt a) (PInt b) =
     (if b = 0 then Inl ZeroDivisionError
      else Inr (PFloat (round_double (of_int a / of_int b))))"
| "py_truediv x y =
     (if to_float y = 0 then Inl ZeroDivisionError
      else Inr (PFloat (round_double (to_float x / to_float y))))"

fun py_int :: "pynum \<Rightarrow> int" where
  "py_int (PInt i) = i"
| "py_int (PFloat x) = (if 0 \<le> x then \<lfloor>x\<rfloor> else \<lceil>x\<rceil>)"

definition py_le :: "pynum \<Rightarrow> pynum \<Rightarrow> bool" where
  "py_le x y = (exact_val x \<le> exact_val y)"

definition py_less :: "pynum \<Rightarrow> pynum \<Rightarrow> bool" where
  "py_less x y = (exact_val x < exact_val y)"


section \<open>Strings\<close>

text \<open>
  A Python \<open>str\<close> is a \<open>string\<close>; a \<open>char\<close> stands for the code point below 256 with
  that number. \<open>isdigit\<close> and \<open>isspace\<close> are \<open>str.isdigit\<close> and \<open>str.isspace\<close> on such a
  code point. A value that may fail to be a string (a query field read from a table) is a
  \<open>pyval\<close>: a string, \<open>None\<close>, or a float such as the missing-value marker NaN.
\<close>

datatype pyval = Str string | NoneVal | NaN

fun py_len :: "pyval \<Rightarrow> error + nat" where
  "py_len (Str s) = Inr (length s)"
| "py_len NoneVal = Inl TypeError"
| "py_len NaN = Inl TypeError"

definition isdigit :: "char \<Rightarrow> bool" where
  "isdigit c = (let n = (of_char c :: nat) in (48 \<le> n \<and> n \<le> 57) \<or> n = 178 \<or> n = 179 \<or> n = 185)"

definition isspace :: "char \<Rightarrow> bool" where
  "isspace c = (let n = (of_char c :: nat) in (9 \<le> n \<and> n \<le> 13) \<or> (28 \<le> n \<and> n \<le> 32) \<or> n = 133 \<or> n = 160)"

fun split_acc :: "string \<Rightarrow> string \<Rightarrow> string list" where
  "split_acc w [] = (if w = [] then [] else [rev w])"
| "split_acc w (c # cs) =
     (if isspace c then (if w = [] then split_acc [] cs else rev w # split_acc [] cs)
      else split_acc (c # w) cs)"

definition split :: "string \<Rightarrow> string list" where
  \<comment> \<open>\<open>s.split()\<close>: the maximal runs of non-whitespace\<close>
  "split s = split_acc [] s"

fun join :: "string list \<Rightarrow> string" where
  \<comment> \<open>\<open>' '.join(ws)\<close>\<close>
  "join [] = []"
| "join [w] = w"
| "join (w # ws) = w @ CHR '' '' # join ws"

definition sorted_words :: "string list \<Rightarrow> string list" where
  \<comment> \<open>\<open>sorted(ws)\<close>: ascending in the lexicographic order of the code points\<close>
  "sorted_words ws = sort ws"

section \<open>The sequence aligner\<close>

text \<open>
  \<open>SequenceMatcher\<close> is imported from a library. The scorer reads one thing from it,
  \<open>get_matching_blocks()\<close>: a list of triples \<open>(i, j, n)\<close> saying that \<open>n\<close> characters of the
  first sequence from position \<open>i\<close> equal those of the second from position \<open>j\<close>. The scorer
  is modelled over any such function, of type \<open>aligner\<close>.
\<close>

type_synonym block = "nat \<times> nat \<times> nat"
type_synonym aligner = "string \<Rightarrow> string \<Rightarrow> block list"

section \<open>FuzzyScorer\<close>

record scorer =
  seq1 :: pyval
  seq2 :: pyval
  seqmat :: "(pyval \<times> pyval) option"
  digit_multiplier :: pynum
  sorted_token :: bool

text \<open>
  The field \<open>seqmat\<close> is the aligner object: \<open>Some (x, y)\<close> when it exists and holds the
  sequences \<open>x\<close> and \<open>y\<close>, \<open>None\<close> after \<open>compute_sorted_token_score\<close> has dropped it.
\<close>

fun sort_and_token :: "pyval \<Rightarrow> error + pyval" where
  "sort_and_token (Str s) = Inr (Str (join (sorted_words (split s))))"
| "sort_and_token NoneVal = Inr (Str [])"
| "sort_and_token NaN = Inl AttributeError"

definition FuzzyScorer :: "pyval \<Rightarrow> pyval \<Rightarrow> pynum \<Rightarrow> bool \<Rightarrow> error + scorer" where
  \<comment> \<open>\<open>FuzzyScorer(to_match, choice, digit_multiplier, sorted_token)\<close>\<close>
  "FuzzyScorer to_match choice dm st =
     (if st then
        (case sort_and_token choice of Inl e \<Rightarrow> Inl e | Inr s1 \<Rightarrow>
          (case sort_and_token to_match of Inl e \<Rightarrow> Inl e | Inr s2 \<Rightarrow>
             Inr \<lparr>seq1 = s1, seq2 = s2, seqmat = Some (s1, s2),
                  digit_multiplier = dm, sorted_token = st\<rparr>))
      else Inr \<lparr>seq1 = choice, seq2 = to_match, seqmat = Some (choice, to_match),
                digit_multiplier = dm, sorted_token = st\<rparr>)"

definition set_choice :: "scorer \<Rightarrow> pyval \<Rightarrow> error + scorer" where
  "set_choice fus choice =
     (case (if sorted_token fus then sort_and_token choice else Inr choice) of
        Inl e \<Rightarrow> Inl e
      | Inr s1 \<Rightarrow>
         (case seqmat fus of
            None \<Rightarrow> Inl AttributeError
          | Some (x, y) \<Rightarrow> Inr (fus\<lparr>seq1 := s1, seqmat := Some (s1, y)\<rparr>)))"

fun diff_positions :: "nat \<Rightarrow> nat \<Rightarrow> block list \<Rightarrow> nat list \<times> nat list" where
  \<comment> \<open>the loop over the blocks: the positions between one block's end and the next one's start\<close>
  "diff_positions cur_pos_a cur_pos_b [] = ([], [])"
| "diff_positions cur_pos_a cur_pos_b ((start_a, start_b, n) # bs) =
     (let (diff_a, diff_b) = diff_positions (start_a + n) (start_b + n) bs
      in ([cur_pos_a..<start_a] @ diff_a, [cur_pos_b..<start_b] @ diff_b))"

fun add_penalty :: "pynum \<Rightarrow> string \<Rightarrow> pynum \<Rightarrow> nat list \<Rightarrow> error + pynum" where
  \<comment> \<open>one of the two penalty loops, from the penalty so far\<close>
  "add_penalty dm s penalty [] = Inr penalty"
| "add_penalty dm s penalty (i # is) =
     (if length s \<le> i then Inl IndexError
      else add_penalty dm s (py_add penalty (if isdigit (s ! i) then dm else PInt 1)) is)"

definition block_matches :: "block list \<Rightarrow> int" where
  "block_matches blocks = sum_list (map (\<lambda>(i, j, n). int n) blocks)"

definition score_blocks :: "pynum \<Rightarrow> string \<Rightarrow> string \<Rightarrow> block list \<Rightarrow> error + int" where
  \<comment> \<open>the body of \<open>compute_score\<close> from the matching blocks on\<close>
  "score_blocks dm a b blocks =
     (let (diff_a, diff_b) = diff_positions 0 0 blocks in
      (case add_penalty dm a (PInt 0) diff_a of Inl e \<Rightarrow> Inl e | Inr p1 \<Rightarrow>
        (case add_penalty dm b p1 diff_b of Inl e \<Rightarrow> Inl e | Inr penalty \<Rightarrow>
          (let matches = PInt (block_matches blocks) in
           (case py_truediv matches (py_add matches penalty) of
              Inl e \<Rightarrow> Inl e
            | Inr ratio \<Rightarrow> Inr (py_int (py_mul (PInt 100) ratio)))))))"

definition compute_score :: "aligner \<Rightarrow> scorer \<Rightarrow> error + int \<times> scorer" where
  "compute_score al fus =
     (case (seq1 fus, seq2 fus) of
        (Str a, Str b) \<Rightarrow>
          if length a = 0 \<and> length b = 0 then Inr (100, fus)
          else if length a = 0 \<or> length b = 0 then Inr (0, fus)
          else
            let fus' = (if seqmat fus = None
                        then fus\<lparr>seqmat := Some (seq1 fus, seq2 fus)\<rparr> else fus)
            in (case seqmat fus' of
                  Some (Str x, Str y) \<Rightarrow>
                    (case score_blocks (digit_multiplier fus) a b (al x y) of
                       Inl e \<Rightarrow> Inl e
                     | Inr sc \<Rightarrow> Inr (sc, fus'))
                | _ \<Rightarrow> Inl TypeError)
      | _ \<Rightarrow> Inl TypeError)"

definition real_quick_ratio :: "scorer \<Rightarrow> error + int" where
  "real_quick_ratio fus =
     (case (seq1 fus, seq2 fus) of
        (Str a, Str b) \<Rightarrow>
          if length a = 0 \<and> length b = 0 then Inr 100
          else
            (case py_truediv
                    (py_mul (py_mul (PInt 100) (PFloat 2)) (PInt (int (min (length a) (length b)))))
                    (PInt (int (length a + length b))) of
               Inl e \<Rightarrow> Inl e
             | Inr q \<Rightarrow> Inr (py_int q))
      | _ \<Rightarrow> Inl TypeError)"

definition compute_sorted_token_score :: "aligner \<Rightarrow> scorer \<Rightarrow> error + int \<times> scorer" where
  "compute_sorted_token_score al fus =
     (case (seq1 fus, seq2 fus) of
        (Str a, Str b) \<Rightarrow>
          let s1 = Str (join (sorted_words (split a)));
              s2 = Str (join (sorted_words (split b)));
              tmp = fus\<lparr>seq1 := s1, seq2 := s2, seqmat := Some (s1, s2)\<rparr>
          in (case compute_score al tmp of
                Inl e \<Rightarrow> Inl e
              | Inr (sc, tmp') \<Rightarrow> Inr (sc, fus\<lparr>seqmat := None\<rparr>))
      | _ \<Rightarrow> Inl AttributeError)"


section \<open>numpy: square root, sorting, selection\<close>

fun isqrt_from :: "int \<Rightarrow> int \<Rightarrow> nat \<Rightarrow> int" where
  \<comment> \<open>the integer square root, bit by bit from bit \<open>k\<close> down\<close>
  "isqrt_from N r 0 = (if (r + 1) * (r + 1) \<le> N then r + 1 else r)"
| "isqrt_from N r (Suc k) =
     isqrt_from N (if (r + 2 ^ Suc k) * (r + 2 ^ Suc k) \<le> N then r + 2 ^ Suc k else r) k"

definition isqrt :: "int \<Rightarrow> int" where
  "isqrt N = isqrt_from N 0 (nat (bitlen N))"

definition fl_sqrt :: "int \<Rightarrow> rat" where
  \<comment> \<open>the double nearest to the square root of \<open>n\<close>: a 53-bit significand \<open>m\<close>, scaled\<close>
  "fl_sqrt n =
     (if n \<le> 0 then 0
      else let e = (bitlen n - 1) div 2;
               s = nat (52 - e);
               N = n * 4 ^ s;
               r = isqrt N;
               m = (if N \<le> r * r + r then r else r + 1)
           in of_int m / 2 ^ s)"

definition weighted_score :: "int \<Rightarrow> int \<Rightarrow> error + int" where
  \<comment> \<open>\<open>np.floor(np.sqrt(rrsc * rfsc)).astype(int)\<close>, one element of the int64 arrays\<close>
  "weighted_score r f =
     (if r < - (2 ^ 63) \<or> 2 ^ 63 \<le> r \<or> f < - (2 ^ 63) \<or> 2 ^ 63 \<le> f
         \<or> r * f < 0 \<or> 2 ^ 63 \<le> r * f
      then Inl UndefinedCast
      else Inr \<lfloor>fl_sqrt \<lfloor>round_double (of_int (r * f))\<rfloor>\<rfloor>)"

fun weighted_scores :: "int list \<Rightarrow> int list \<Rightarrow> error + int list" where
  "weighted_scores (r # rs) (f # fs) =
     (case weighted_score r f of Inl e \<Rightarrow> Inl e | Inr w \<Rightarrow>
       (case weighted_scores rs fs of Inl e \<Rightarrow> Inl e | Inr ws \<Rightarrow> Inr (w # ws)))"
| "weighted_scores _ _ = Inr []"

text \<open>
  \<open>np.argsort\<close> and \<open>np.argpartition\<close> are library functions whose treatment of equal
  elements is not fixed by their contract. The matcher is modelled over any pair of them;
  \<open>argsort_ok\<close> and \<open>argpartition_ok\<close> state the contract.
\<close>

record numpy =
  argsort :: "int list \<Rightarrow> nat list"
  argpartition :: "int list \<Rightarrow> nat \<Rightarrow> nat list"

definition argsort_ok :: "(int list \<Rightarrow> nat list) \<Rightarrow> bool" where
  "argsort_ok srt =
     (\<forall>xs. mset (srt xs) = mset [0..<length xs] \<and> sorted (map (\<lambda>i. xs ! i) (srt xs)))"

definition argpartition_ok :: "(int list \<Rightarrow> nat \<Rightarrow> nat list) \<Rightarrow> bool" where
  "argpartition_ok part =
     (\<forall>xs k. k < length xs \<longrightarrow>
        mset (part xs k) = mset [0..<length xs] \<and>
        (\<forall>i < length xs. (i < k \<longrightarrow> xs ! (part xs k ! i) \<le> xs ! (part xs k ! k)) \<and>
                          (k < i \<longrightarrow> xs ! (part xs k ! k) \<le> xs ! (part xs k ! i))))"

definition stable_argsort :: "int list \<Rightarrow> nat list" where
  \<comment> \<open>a stable sort of the indices, as numpy's default sort is on arrays of at most 16 elements\<close>
  "stable_argsort xs = sort_key (\<lambda>i. xs ! i) [0..<length xs]"

definition take_idx :: "'a list \<Rightarrow> nat list \<Rightarrow> 'a list" where
  \<comment> \<open>\<open>xs[idx]\<close> for an index array whose entries are in range\<close>
  "take_idx xs idx = map (\<lambda>i. xs ! i) idx"

definition compress :: "bool list \<Rightarrow> 'a list \<Rightarrow> 'a list" where
  \<comment> \<open>\<open>xs[valid]\<close> for a boolean array of the length of \<open>xs\<close>\<close>
  "compress valid xs = map snd (filter fst (zip valid xs))"

definition bool_index :: "bool list \<Rightarrow> 'a list \<Rightarrow> error + 'a list" where
  \<comment> \<open>\<open>xs[np.array(valid)]\<close>: the array of an empty list has a float dtype and is no index\<close>
  "bool_index valid xs = (if valid = [] then Inl IndexError else Inr (compress valid xs))"

section \<open>FuzzyFundMatcher.find_cur_best\<close>

text \<open>
  The candidate pool is three parallel arrays \<open>choices_r\<close>, \<open>choices_f\<close> and \<open>match_pos\<close> of
  one length, filtered by the same masks throughout; the model keeps them zipped, one
  triple per candidate. \<open>NoPool\<close> is the pool whose arrays are \<open>None\<close> (what \<open>preproc\<close> leaves
  for an empty list of choices), \<open>ScalarPool\<close> the one whose two name arrays are single
  strings (what \<open>preproc\<close> leaves for a list of one choice).
\<close>

type_synonym 'id cand = "string \<times> string \<times> 'id"

datatype 'id pool = NoPool | ScalarPool string string | Pool "'id cand list"

type_synonym 'id match = "string \<times> int \<times> 'id \<times> string"

record env =
  get_matching_blocks :: aligner
  np :: numpy

fun quick_loop :: "scorer \<Rightarrow> pynum \<Rightarrow> string list \<Rightarrow> error + bool list" where
  "quick_loop fus thr [] = Inr []"
| "quick_loop fus thr (choice # cs) =
     (case set_choice fus (Str choice) of Inl e \<Rightarrow> Inl e | Inr fus' \<Rightarrow>
       (case real_quick_ratio fus' of Inl e \<Rightarrow> Inl e | Inr q \<Rightarrow>
         (case quick_loop fus' thr cs of Inl e \<Rightarrow> Inl e | Inr valid \<Rightarrow>
            Inr (py_le thr (PInt q) # valid))))"

definition quick_filter :: "pyval \<Rightarrow> pynum \<Rightarrow> pynum \<Rightarrow> string list \<Rightarrow> error + bool list" where
  "quick_filter to_match dm thr choices =
     (case FuzzyScorer to_match NoneVal dm False of Inl e \<Rightarrow> Inl e
      | Inr fus \<Rightarrow> quick_loop fus thr choices)"

definition quick_stage ::
  "pyval \<Rightarrow> pyval \<Rightarrow> pynum \<Rightarrow> pynum \<Rightarrow> 'id pool \<Rightarrow> error + 'id cand list" where
  "quick_stage registrant fund dm thr pool =
     (case pool of
        NoPool \<Rightarrow> Inl TypeError
      | ScalarPool r f \<Rightarrow>
          (case quick_filter registrant dm thr (map (\<lambda>c. [c]) r) of Inl e \<Rightarrow> Inl e
           | Inr valid \<Rightarrow> Inl TypeError)
      | Pool cs \<Rightarrow>
          (case quick_filter registrant dm thr (map fst cs) of Inl e \<Rightarrow> Inl e | Inr valid \<Rightarrow>
            (case bool_index valid cs of Inl e \<Rightarrow> Inl e | Inr rem \<Rightarrow>
              (case quick_filter fund dm thr (map (\<lambda>c. fst (snd c)) rem) of Inl e \<Rightarrow> Inl e
               | Inr valid2 \<Rightarrow> bool_index valid2 rem))))"

fun score_loop :: "aligner \<Rightarrow> scorer \<Rightarrow> string list \<Rightarrow> error + int list" where
  "score_loop al fus [] = Inr []"
| "score_loop al fus (choice # cs) =
     (case set_choice fus (Str choice) of Inl e \<Rightarrow> Inl e | Inr fus1 \<Rightarrow>
       (case compute_score al fus1 of Inl e \<Rightarrow> Inl e | Inr (sc, fus2) \<Rightarrow>
         (case score_loop al fus2 cs of Inl e \<Rightarrow> Inl e | Inr scs \<Rightarrow> Inr (sc # scs))))"

fun token_loop :: "aligner \<Rightarrow> scorer \<Rightarrow> int \<Rightarrow> string list \<Rightarrow> int list \<Rightarrow> error + int list" where
  "token_loop al fus half (choice # cs) (cur # curs) =
     (if cur = 100 then
        (case token_loop al fus half cs curs of Inl e \<Rightarrow> Inl e | Inr ts \<Rightarrow> Inr (100 # ts))
      else if cur < half then
        (case token_loop al fus half cs curs of Inl e \<Rightarrow> Inl e | Inr ts \<Rightarrow> Inr (0 # ts))
      else
        (case set_choice fus (Str choice) of Inl e \<Rightarrow> Inl e | Inr fus1 \<Rightarrow>
          (case compute_score al fus1 of Inl e \<Rightarrow> Inl e | Inr (sc, fus2) \<Rightarrow>
            (case token_loop al fus2 half cs curs of Inl e \<Rightarrow> Inl e | Inr ts \<Rightarrow> Inr (sc # ts)))))"
| "token_loop al fus half _ _ = Inr []"

definition half_valid_threshold :: "pynum \<Rightarrow> int" where
  \<comment> \<open>\<open>int(valid_threshold/3)\<close>\<close>
  "half_valid_threshold thr =
     (case py_truediv thr (PInt 3) of Inl e \<Rightarrow> 0 | Inr q \<Rightarrow> py_int q)"

definition stage_scores ::
  "aligner \<Rightarrow> pyval \<Rightarrow> pynum \<Rightarrow> pynum \<Rightarrow> bool \<Rightarrow> string list \<Rightarrow> error + int list \<times> bool list" where
  \<comment> \<open>the scores of one stage and, under \<open>order_irrelevance\<close>, where the token score was higher\<close>
  "stage_scores al to_match dm thr order_irrelevance choices =
     (case FuzzyScorer to_match NoneVal dm False of Inl e \<Rightarrow> Inl e | Inr fus \<Rightarrow>
       (case score_loop al fus choices of Inl e \<Rightarrow> Inl e | Inr raw \<Rightarrow>
         (if order_irrelevance then
            (case FuzzyScorer to_match NoneVal dm True of Inl e \<Rightarrow> Inl e | Inr fust \<Rightarrow>
              (case token_loop al fust (half_valid_threshold thr) choices raw of Inl e \<Rightarrow> Inl e
               | Inr tok \<Rightarrow> Inr (map2 max raw tok, map2 (\<lambda>r t. r < t) raw tok)))
          else Inr (raw, []))))"

definition pos_top :: "numpy \<Rightarrow> nat option \<Rightarrow> int list \<Rightarrow> nat list" where
  "pos_top lib top_n scores_weighted =
     (case top_n of
        Some n \<Rightarrow>
          if n < length scores_weighted then
            (let part = argpartition lib scores_weighted
                          (if n = 0 then 0 else length scores_weighted - n);
                 top = (if n = 0 then part else drop (length part - n) part)
             in rev (take_idx top (argsort lib (take_idx scores_weighted top))))
          else rev (argsort lib scores_weighted)
      | None \<Rightarrow> rev (argsort lib scores_weighted))"

definition finalize ::
  "numpy \<Rightarrow> nat option \<Rightarrow> bool \<Rightarrow> 'id cand list \<Rightarrow> int list \<Rightarrow> int list \<Rightarrow> bool list
     \<Rightarrow> error + 'id match list" where
  "finalize lib top_n order_irrelevance rem rrsc rfsc improvement =
     (case weighted_scores rrsc rfsc of Inl e \<Rightarrow> Inl e | Inr scores_weighted \<Rightarrow>
        (let top = pos_top lib top_n scores_weighted;
             picks = map (\<lambda>(r, f, p). r @ '' : '' @ f) (take_idx rem top);
             rpos = map (\<lambda>(r, f, p). p) (take_idx rem top);
             flag_m = (if order_irrelevance
                       then map (\<lambda>imp. if imp then ''OR'' else []) (take_idx improvement top)
                       else replicate (length top) [])
         in Inr (zip picks (zip (take_idx scores_weighted top) (zip rpos flag_m)))))"

definition find_cur_best ::
  "env \<Rightarrow> pyval \<Rightarrow> pyval \<Rightarrow> 'id pool \<Rightarrow> nat option \<Rightarrow> pynum \<Rightarrow> pynum \<Rightarrow> bool \<Rightarrow> bool
     \<Rightarrow> error + 'id match list option" where
  "find_cur_best ev registrant fund pool top_n valid_threshold dm quick_comparison order_irrelevance =
     (case (if quick_comparison
            then (case quick_stage registrant fund dm valid_threshold pool of
                    Inl e \<Rightarrow> (if e = TypeError \<or> e = IndexError then Inr None else Inl e)
                  | Inr rem \<Rightarrow> Inr (Some (Some rem)))
            else Inr (Some None)) of
        Inl e \<Rightarrow> Inl e
      | Inr None \<Rightarrow> Inr None
      | Inr (Some None) \<Rightarrow> Inl UnboundLocalError
      | Inr (Some (Some rem0)) \<Rightarrow>
         (case stage_scores (get_matching_blocks ev) registrant dm valid_threshold
                 order_irrelevance (map fst rem0) of
            Inl e \<Rightarrow> (if e = TypeError then Inr None else Inl e)
          | Inr (rrsc0, imp0) \<Rightarrow>
             (let valid = map (\<lambda>e. py_le valid_threshold (PInt e)) rrsc0 in
              if True \<notin> set valid then Inr None
              else
               (let rem1 = compress valid rem0;
                    rrsc1 = compress valid rrsc0;
                    imp1 = compress valid imp0
                in (case stage_scores (get_matching_blocks ev) fund dm valid_threshold
                          order_irrelevance (map (\<lambda>c. fst (snd c)) rem1) of
                      Inl e \<Rightarrow> (if e = TypeError then Inr None else Inl e)
                    | Inr (rfsc0, impf) \<Rightarrow>
                       (let valid2 = map (\<lambda>e. py_le valid_threshold (PInt e)) rfsc0 in
                        if True \<notin> set valid2 then Inr None
                        else
                         (case finalize (np ev) top_n order_irrelevance
                                 (compress valid2 rem1) (compress valid2 rrsc1)
                                 (compress valid2 rfsc0)
                                 (compress valid2 (map2 (\<or>) imp1 impf)) of
                            Inl e \<Rightarrow> Inl e
                          | Inr res \<Rightarrow> Inr (Some res))))))))"

section \<open>The aligner of the specification\<close>

text \<open>
  Modelled from the spec: the sequence aligner, which this repository imports from a
  library. Section 4.1 of the specification: find the longest substring common to \<open>a\<close> and
  \<open>b\<close>, on ties the one starting earliest in \<open>a\<close>, then earliest in \<open>b\<close>; align the parts
  before it and the parts after it in the same way; no common substring, no blocks. The
  library's \<open>get_matching_blocks\<close> ends its list with the dummy block \<open>(len a, len b, 0)\<close>,
  which the scorer's loop relies on to reach the unmatched tail of both strings.
\<close>

fun common_len :: "'a list \<Rightarrow> 'a list \<Rightarrow> nat" where
  "common_len (x # xs) (y # ys) = (if x = y then Suc (common_len xs ys) else 0)"
| "common_len _ _ = 0"

definition longest_match :: "string \<Rightarrow> string \<Rightarrow> block" where
  "longest_match a b =
     fold (\<lambda>(i, j) (bi, bj, bn).
             let n = common_len (drop i a) (drop j b)
             in if bn < n then (i, j, n) else (bi, bj, bn))
          (List.product [0..<length a] [0..<length b]) (0, 0, 0)"

lemma common_len_le: "common_len xs ys \<le> length xs \<and> common_len xs ys \<le> length ys"
  by (induction xs ys rule: common_len.induct) auto

lemma fold_invariant:
  assumes "P s" and "\<And>x s. x \<in> set xs \<Longrightarrow> P s \<Longrightarrow> P (f x s)"
  shows "P (fold f xs s)"
  using assms by (induction xs arbitrary: s) auto

lemma longest_match_bounds:
  assumes "longest_match a b = (i, j, n)" and "n \<noteq> 0"
  shows "i + n \<le> length a \<and> j + n \<le> length b"
proof -
  let ?P = "\<lambda>(bi, bj, bn). bn \<noteq> 0 \<longrightarrow> bi + bn \<le> length a \<and> bj + bn \<le> length b"
  let ?f = "\<lambda>(i, j) (bi, bj, bn).
             let n = common_len (drop i a) (drop j b)
             in if bn < n then (i, j, n) else (bi, bj, bn)"
  have "?P (fold ?f (List.product [0..<length a] [0..<length b]) (0, 0, 0))"
  proof (rule fold_invariant)
    show "?P (0, 0, 0)" by simp
  next
    fix x :: "nat \<times> nat" and s :: block
    assume P: "?P s"
    obtain i j where x: "x = (i, j)" by (cases x)
    obtain bi bj bn where s: "s = (bi, bj, bn)" by (cases s)
    have "common_len (drop i a) (drop j b) \<le> length a - i"
         "common_len (drop i a) (drop j b) \<le> length b - j"
      using common_len_le [of "drop i a" "drop j b"] by simp_all
    with P show "?P (?f x s)"
      unfolding x s by (auto simp: Let_def)
  qed
  then show ?thesis
    using assms by (simp add: longest_match_def)
qed

function align :: "nat \<Rightarrow> nat \<Rightarrow> string \<Rightarrow> string \<Rightarrow> block list" where
  "align ao bo a b =
     (case longest_match a b of
        (i, j, n) \<Rightarrow>
          if n = 0 then []
          else align ao bo (take i a) (take j b) @ [(ao + i, bo + j, n)]
               @ align (ao + i + n) (bo + j + n) (drop (i + n) a) (drop (j + n) b))"
  by pat_completeness auto
termination
  apply (relation "measure (\<lambda>(ao, bo, a, b). length a + length b)")
    apply simp
  subgoal for ao bo a b x1 x2 x1a x2a
    using longest_match_bounds [of a b x1 x1a x2a] by auto
  subgoal for ao bo a b x1 x2 x1a x2a
    using longest_match_bounds [of a b x1 x1a x2a] by auto
  done

definition spec_aligner :: aligner where
  "spec_aligner a b = align 0 0 a b @ [(length a, length b, 0)]"

definition spec_env :: env where
  "spec_env = \<lparr>get_matching_blocks = spec_aligner,
               np = \<lparr>argsort = stable_argsort, argpartition = (\<lambda>xs k. stable_argsort xs)\<rparr>\<rparr>"

section \<open>preproc_string, preproc and find_best\<close>

text \<open>
  \<open>preproc_string\<close> takes one string or a list of strings. Its regular-expression
  substitutions (the trim words, the caller's \<open>regex_sub\<close> list and the two fixed patterns)
  are calls into Python's \<open>re\<close> library, applied to each registrant part and each fund part
  on its own; the model takes their composition as the parameter \<open>subs\<close>. \<open>lower\<close> is
  \<open>str.lower\<close>, likewise a parameter.
\<close>

datatype strings = OneStr string | StrList "string list"

datatype names = NoNames | Scalar string | Array "string list"

fun py_len_strings :: "strings \<Rightarrow> nat" where
  "py_len_strings (OneStr s) = length s"
| "py_len_strings (StrList ss) = length ss"

definition split_colon :: "string \<Rightarrow> string \<times> string" where
  \<comment> \<open>\<open>s.split(sep=':', maxsplit=1)\<close>, padded with \<open>''\<close> when there is no colon\<close>
  "split_colon s =
     (let r = takeWhile (\<lambda>c. c \<noteq> CHR '':'') s; t = dropWhile (\<lambda>c. c \<noteq> CHR '':'') s
      in (r, if t = [] then [] else tl t))"

definition strip :: "string \<Rightarrow> string" where
  "strip s = rev (dropWhile isspace (rev (dropWhile isspace s)))"

definition preproc_one ::
  "(string \<Rightarrow> string) \<Rightarrow> (string \<Rightarrow> string) \<Rightarrow> bool \<Rightarrow> string \<Rightarrow> string \<times> string" where
  \<comment> \<open>what the list comprehensions do to one element\<close>
  "preproc_one lower subs rem_reg_from_fund s =
     (let (r0, f0) = split_colon (lower s);
          r = subs r0;
          f1 = subs f0;
          f = (if rem_reg_from_fund
               then join (filter (\<lambda>word. word \<notin> set (split r)) (split f1)) else f1)
      in (strip r, strip f))"

definition preproc_string ::
  "(string \<Rightarrow> string) \<Rightarrow> (string \<Rightarrow> string) \<Rightarrow> bool \<Rightarrow> strings \<Rightarrow> (names \<times> names) option" where
  "preproc_string lower subs rem_reg_from_fund strs =
     (if py_len_strings strs = 0 then None
      else
        (let ss = (case strs of OneStr s \<Rightarrow> [s] | StrList l \<Rightarrow> l);
             st = map (preproc_one lower subs rem_reg_from_fund) ss;
             st_r = map fst st;
             st_f = map snd st
         in Some (if length st_r = 1 then Scalar (st_r ! 0) else Array st_r,
                  if length st_f = 1 then Scalar (st_f ! 0) else Array st_f)))"

record 'id matcher =
  to_matches :: strings
  choices :: strings
  to_matches_r :: names
  to_matches_f :: names
  choices_r :: names
  choices_f :: names
  match_pos :: "'id list"

definition FuzzyFundMatcher :: "strings \<Rightarrow> strings \<Rightarrow> nat matcher" where
  \<comment> \<open>the constructor without \<open>match_pos\<close>, on plain lists: positions \<open>0, 1, ...\<close>\<close>
  "FuzzyFundMatcher tm ch =
     \<lparr>to_matches = tm, choices = ch, to_matches_r = NoNames, to_matches_f = NoNames,
      choices_r = NoNames, choices_f = NoNames, match_pos = [0..<py_len_strings ch]\<rparr>"

definition preproc ::
  "(string \<Rightarrow> string) \<Rightarrow> (string \<Rightarrow> string) \<Rightarrow> bool \<Rightarrow> 'id matcher \<Rightarrow> 'id matcher" where
  \<comment> \<open>unpacking \<open>None\<close> raises the TypeError that the method catches, returning at once\<close>
  "preproc lower subs rem_reg_from_fund m =
     (case preproc_string lower subs rem_reg_from_fund (to_matches m) of
        None \<Rightarrow> m
      | Some (r, f) \<Rightarrow>
          (let m1 = m\<lparr>to_matches_r := r, to_matches_f := f\<rparr>
           in (case preproc_string lower subs rem_reg_from_fund (choices m) of
                 None \<Rightarrow> m1
               | Some (cr, cf) \<Rightarrow> m1\<lparr>choices_r := cr, choices_f := cf\<rparr>)))"

fun iterate :: "names \<Rightarrow> error + string list" where
  \<comment> \<open>what a \<open>for\<close> loop or \<open>zip\<close> sees: the elements of an array, the characters of a string\<close>
  "iterate NoNames = Inl TypeError"
| "iterate (Scalar s) = Inr (map (\<lambda>c. [c]) s)"
| "iterate (Array ss) = Inr ss"

definition pool_of :: "'id matcher \<Rightarrow> 'id pool" where
  "pool_of m =
     (case (choices_r m, choices_f m) of
        (Array rs, Array fs) \<Rightarrow> Pool (zip rs (zip fs (match_pos m)))
      | (Scalar r, Scalar f) \<Rightarrow> ScalarPool r f
      | _ \<Rightarrow> NoPool)"

fun map_err :: "('a \<Rightarrow> error + 'b) \<Rightarrow> 'a list \<Rightarrow> error + 'b list" where
  \<comment> \<open>a list comprehension, or \<open>pool.map\<close>: the results in the order of the inputs, or the first error\<close>
  "map_err f [] = Inr []"
| "map_err f (x # xs) =
     (case f x of Inl e \<Rightarrow> Inl e | Inr y \<Rightarrow>
       (case map_err f xs of Inl e \<Rightarrow> Inl e | Inr ys \<Rightarrow> Inr (y # ys)))"

definition find_best ::
  "env \<Rightarrow> 'id matcher \<Rightarrow> nat option \<Rightarrow> pynum \<Rightarrow> pynum \<Rightarrow> bool \<Rightarrow> bool \<Rightarrow> bool
     \<Rightarrow> error + (string \<times> 'id match list) option list" where
  "find_best ev m top_n valid_threshold dm multi_processing quick_comparison order_irrelevance =
     (case iterate (to_matches_r m) of Inl e \<Rightarrow> Inl e | Inr regs \<Rightarrow>
       (case iterate (to_matches_f m) of Inl e \<Rightarrow> Inl e | Inr funds \<Rightarrow>
         (let reg_funds = zip regs funds;
              find_func = (\<lambda>(reg, fund). find_cur_best ev (Str reg) (Str fund) (pool_of m) top_n
                                           valid_threshold dm quick_comparison order_irrelevance)
          in (case (if multi_processing then map_err find_func reg_funds
                    else map_err find_func reg_funds) of
                Inl e \<Rightarrow> Inl e
              | Inr matches \<Rightarrow>
                  Inr (map (\<lambda>(mat, reg, fund).
                              (case mat of
                                 None \<Rightarrow> None
                               | Some l \<Rightarrow> if l = [] then None else Some (reg @ '' : '' @ fund, l)))
                           (zip matches reg_funds))))))"

section \<open>Scoring one pair\<close>

text \<open>
  The funnel scores a candidate against a query by building a scorer on the query,
  pointing it at the candidate with \<open>set_choice\<close>, and calling \<open>compute_score\<close> or
  \<open>real_quick_ratio\<close>. \<open>score_pair\<close> and \<open>quick_pair\<close> are these three calls in a row.
\<close>

definition score_pair :: "aligner \<Rightarrow> pynum \<Rightarrow> bool \<Rightarrow> pyval \<Rightarrow> pyval \<Rightarrow> error + int" where
  "score_pair al dm st to_match choice =
     (case FuzzyScorer to_match NoneVal dm st of Inl e \<Rightarrow> Inl e | Inr fus \<Rightarrow>
       (case set_choice fus choice of Inl e \<Rightarrow> Inl e | Inr fus1 \<Rightarrow>
         (case compute_score al fus1 of Inl e \<Rightarrow> Inl e | Inr (sc, fus2) \<Rightarrow> Inr sc)))"

definition quick_pair :: "pynum \<Rightarrow> pyval \<Rightarrow> pyval \<Rightarrow> error + int" where
  "quick_pair dm to_match choice =
     (case FuzzyScorer to_match NoneVal dm False of Inl e \<Rightarrow> Inl e | Inr fus \<Rightarrow>
       (case set_choice fus choice of Inl e \<Rightarrow> Inl e | Inr fus1 \<Rightarrow> real_quick_ratio fus1))"

definition mirror :: "block \<Rightarrow> block" where
  "mirror bl = (case bl of (i, j, n) \<Rightarrow> (j, i, n))"

section \<open>One candidate at a time\<close>

text \<open>
  The funnel keeps parallel arrays. For the proofs, each array is described as a map over
  the surviving candidates: \<open>raw_score\<close> and \<open>token_score\<close> are what \<open>compute_score\<close> returns
  for one candidate on a plain and on a token-sorting scorer, \<open>quick_score\<close> what
  \<open>real_quick_ratio\<close> returns, \<open>token_entry\<close> is what the token loop appends, \<open>stage_score\<close>
  and \<open>stage_improved\<close> are one element of the stage's score and improvement arrays, and
  \<open>entry_of\<close> is the tuple emitted for a candidate. \<open>ready\<close> says that a scorer is pointed at
  a given query; \<open>passes\<close> says that a candidate gets through the quick filter and both
  thresholds; \<open>survivor\<close> collects what is known of a candidate that reaches the final stage.
\<close>

definition ready :: "pyval \<Rightarrow> pynum \<Rightarrow> bool \<Rightarrow> scorer \<Rightarrow> bool" where
  "ready q dm st fus =
     (seq2 fus = q \<and> digit_multiplier fus = dm \<and> sorted_token fus = st
      \<and> (\<exists>x. seqmat fus = Some (x, q)))"

definition raw_score :: "aligner \<Rightarrow> pynum \<Rightarrow> string \<Rightarrow> string \<Rightarrow> int" where
  "raw_score al dm q c = projr (score_pair al dm False (Str q) (Str c))"

definition token_score :: "aligner \<Rightarrow> pynum \<Rightarrow> string \<Rightarrow> string \<Rightarrow> int" where
  "token_score al dm q c = projr (score_pair al dm True (Str q) (Str c))"

definition token_entry :: "int \<Rightarrow> int \<Rightarrow> int \<Rightarrow> int" where
  "token_entry half raw tok = (if raw = 100 then 100 else if raw < half then 0 else tok)"

definition stage_score :: "aligner \<Rightarrow> pynum \<Rightarrow> pynum \<Rightarrow> bool \<Rightarrow> string \<Rightarrow> string \<Rightarrow> int" where
  "stage_score al dm thr oi q c =
     (let raw = raw_score al dm q c
      in if oi then max raw (token_entry (half_valid_threshold thr) raw (token_score al dm q c))
         else raw)"

definition stage_improved :: "aligner \<Rightarrow> pynum \<Rightarrow> pynum \<Rightarrow> string \<Rightarrow> string \<Rightarrow> bool" where
  "stage_improved al dm thr q c =
     (let raw = raw_score al dm q c
      in raw < token_entry (half_valid_threshold thr) raw (token_score al dm q c))"

definition entry_of ::
  "aligner \<Rightarrow> pynum \<Rightarrow> pynum \<Rightarrow> bool \<Rightarrow> string \<Rightarrow> string \<Rightarrow> 'id cand \<Rightarrow> 'id match" where
  "entry_of al dm thr oi reg fund c =
     (case c of (r, f, p) \<Rightarrow>
        (r @ '' : '' @ f,
         projr (weighted_score (stage_score al dm thr oi reg r) (stage_score al dm thr oi fund f)),
         p,
         if oi \<and> (stage_improved al dm thr reg r \<or> stage_improved al dm thr fund f)
         then ''OR'' else []))"

definition survivor ::
  "aligner \<Rightarrow> pynum \<Rightarrow> pynum \<Rightarrow> bool \<Rightarrow> string \<Rightarrow> string \<Rightarrow> 'id cand \<Rightarrow> bool" where
  "survivor al dm thr oi reg fund c =
     (case c of (r, f, p) \<Rightarrow>
        py_le thr (PInt (stage_score al dm thr oi reg r))
      \<and> py_le thr (PInt (stage_score al dm thr oi fund f))
      \<and> score_pair al dm False (Str reg) (Str r) = Inr (raw_score al dm reg r)
      \<and> score_pair al dm False (Str fund) (Str f) = Inr (raw_score al dm fund f)
      \<and> (oi \<and> raw_score al dm reg r \<noteq> 100 \<and> \<not> raw_score al dm reg r < half_valid_threshold thr
           \<longrightarrow> score_pair al dm True (Str reg) (Str r) = Inr (token_score al dm reg r))
      \<and> (oi \<and> raw_score al dm fund f \<noteq> 100 \<and> \<not> raw_score al dm fund f < half_valid_threshold thr
           \<longrightarrow> score_pair al dm True (Str fund) (Str f) = Inr (token_score al dm fund f))
      \<and> weighted_score (stage_score al dm thr oi reg r) (stage_score al dm thr oi fund f)
          = Inr (projr (weighted_score (stage_score al dm thr oi reg r)
                                       (stage_score al dm thr oi fund f))))"

definition quick_score :: "pynum \<Rightarrow> string \<Rightarrow> string \<Rightarrow> int" where
  "quick_score dm q c = projr (quick_pair dm (Str q) (Str c))"

definition passes ::
  "aligner \<Rightarrow> pynum \<Rightarrow> pynum \<Rightarrow> bool \<Rightarrow> string \<Rightarrow> string \<Rightarrow> 'id cand \<Rightarrow> bool" where
  "passes al dm thr oi reg fund c =
     (case c of (r, f, p) \<Rightarrow>
        (py_le thr (PInt (quick_score dm reg r)) \<and> py_le thr (PInt (quick_score dm fund f)))
      \<and> py_le thr (PInt (stage_score al dm thr oi reg r))
      \<and> py_le thr (PInt (stage_score al dm thr oi fund f)))"

text \<open>
  The specification's words for one stage under \<open>order_irrelevance\<close>: the stage score is
  the raw score when that is 100 or below a third of the threshold, and otherwise the larger
  of the raw and the token-sorted score; the stage improved a candidate when the token-sorted
  score was computed and is strictly higher than the raw one.
\<close>

definition spec_stage_score :: "int \<Rightarrow> int \<Rightarrow> int \<Rightarrow> int" where
  "spec_stage_score third raw tok = (if raw = 100 \<or> raw < third then raw else max raw tok)"

definition spec_improved :: "int \<Rightarrow> int \<Rightarrow> int \<Rightarrow> bool" where
  "spec_improved third raw tok = (raw \<noteq> 100 \<and> \<not> raw < third \<and> raw < tok)"

section \<open>Rounding to a double\<close>

lemma pow2_powi: "pow2 e = 2 powi e"
  by (simp add: pow2_def power_int_def power_one_over [symmetric] inverse_eq_divide)

lemma pow2_pos: "0 < pow2 e"
  by (simp add: pow2_powi)

lemma pow2_add: "pow2 (a + b) = pow2 a * pow2 b"
  by (simp add: pow2_powi power_int_add)

lemma pow2_mono: "a \<le> b \<Longrightarrow> pow2 a \<le> pow2 b"
  by (simp add: pow2_powi power_int_increasing)

lemma pow2_less_cancel: "pow2 a < pow2 b \<Longrightarrow> a < b"
  using pow2_mono [of b a] by (cases "a < b") auto

lemma pow2_nat: "pow2 (int n) = 2 ^ n"
  by (simp add: pow2_def)

lemma round_half_even_le:
  assumes "x \<le> of_int k" shows "round_half_even x \<le> k"
proof -
  have f: "\<lfloor>x\<rfloor> \<le> k" using assms by (simp add: floor_le_iff) 
  show ?thesis
  proof (cases "\<lfloor>x\<rfloor> = k")
    case True
    then have "x = of_int k" using assms of_int_floor_le [of x] by simp
    then show ?thesis by (simp add: round_half_even_def)
  next
    case False
    with f have "\<lfloor>x\<rfloor> + 1 \<le> k" by simp
    then show ?thesis by (simp add: round_half_even_def Let_def)
  qed
qed

lemma round_half_even_ge:
  assumes "of_int k \<le> x" shows "k \<le> round_half_even x"
proof -
  have "k \<le> \<lfloor>x\<rfloor>" using assms by (simp add: le_floor_iff)
  then show ?thesis by (simp add: round_half_even_def Let_def)
qed

lemma round_half_even_less:
  assumes "x < of_int k - 1 / 2" shows "round_half_even x < k"
proof -
  have "x < of_int k" using assms by simp
  then have f: "\<lfloor>x\<rfloor> < k" by (simp add: floor_less_iff)
  show ?thesis
  proof (cases "\<lfloor>x\<rfloor> = k - 1")
    case True
    then have "x - of_int \<lfloor>x\<rfloor> < 1 / 2" using assms by simp
    then show ?thesis using f by (simp add: round_half_even_def Let_def)
  next
    case False
    with f have "\<lfloor>x\<rfloor> + 1 < k" by simp
    then show ?thesis by (simp add: round_half_even_def Let_def)
  qed
qed

lemma round_double_grid_le:
  assumes "x \<noteq> 0" and "g = of_int k * pow2 (ilog2 \<bar>x\<bar> - 52)" and "x \<le> g"
  shows "round_double x \<le> g"
proof -
  let ?u = "pow2 (ilog2 \<bar>x\<bar> - 52)"
  have u: "0 < ?u" by (rule pow2_pos)
  have "x / ?u \<le> of_int k" using assms u by (simp add: pos_divide_le_eq)
  then have "round_half_even (x / ?u) \<le> k" by (rule round_half_even_le)
  then have "(of_int (round_half_even (x / ?u)) :: rat) \<le> of_int k" by simp
  then show ?thesis using assms u by (simp add: round_double_def Let_def)
qed

lemma round_double_grid_ge:
  assumes "x \<noteq> 0" and "g = of_int k * pow2 (ilog2 \<bar>x\<bar> - 52)" and "g \<le> x"
  shows "g \<le> round_double x"
proof -
  let ?u = "pow2 (ilog2 \<bar>x\<bar> - 52)"
  have u: "0 < ?u" by (rule pow2_pos)
  have "of_int k \<le> x / ?u" using assms u by (simp add: pos_le_divide_eq)
  then have "k \<le> round_half_even (x / ?u)" by (rule round_half_even_ge)
  then have "(of_int k :: rat) \<le> of_int (round_half_even (x / ?u))" by simp
  then show ?thesis using assms u by (simp add: round_double_def Let_def)
qed

lemma round_double_grid_less:
  assumes "x \<noteq> 0" and "g = of_int k * pow2 (ilog2 \<bar>x\<bar> - 52)"
    and "x < g - pow2 (ilog2 \<bar>x\<bar> - 52) / 2"
  shows "round_double x < g"
proof -
  let ?u = "pow2 (ilog2 \<bar>x\<bar> - 52)"
  have u: "0 < ?u" by (rule pow2_pos)
  have "x < (of_int k - 1 / 2) * ?u" using assms by (simp add: algebra_simps)
  then have "x / ?u < of_int k - 1 / 2" using u by (simp add: pos_divide_less_eq)
  then have "round_half_even (x / ?u) < k" by (rule round_half_even_less)
  then have "(of_int (round_half_even (x / ?u)) :: rat) < of_int k" by simp
  then show ?thesis using assms u by (simp add: round_double_def Let_def)
qed

lemma round_double_nonneg: "0 \<le> x \<Longrightarrow> 0 \<le> round_double x"
  using round_double_grid_ge [of x 0 0] by (cases "x = 0") (auto simp: round_double_def)

lemma pow2_diff: "pow2 (a - b) = pow2 a / pow2 b"
  by (simp add: pow2_powi power_int_diff)

lemma int_pow2_bounds:
  assumes "0 < p"
  shows "pow2 (bitlen p - 1) \<le> of_int p \<and> (of_int p :: rat) < pow2 (bitlen p)"
proof -
  from bitlen_bounds [OF assms]
  have b: "2 ^ nat (bitlen p - 1) \<le> p" "p < 2 ^ nat (bitlen p)" by simp_all
  have b1: "1 \<le> bitlen p" using assms by (simp add: bitlen_alt_def)
  have "(of_int (2 ^ nat (bitlen p - 1)) :: rat) \<le> of_int p" using b(1) by (simp only: of_int_le_iff)
  moreover have "(of_int p :: rat) < of_int (2 ^ nat (bitlen p))" using b(2) by (simp only: of_int_less_iff)
  ultimately show ?thesis using b1 by (simp add: pow2_def)
qed

lemma ilog2_bounds:
  assumes "0 < x"
  shows "pow2 (ilog2 x) \<le> x \<and> x < pow2 (ilog2 x + 1)"
proof -
  obtain p q where pq: "quotient_of x = (p, q)" by (cases "quotient_of x")
  have q: "0 < q" using pq by (rule quotient_of_denom_pos)
  have x: "x = of_int p / of_int q" using pq by (rule quotient_of_div)
  have p: "0 < p" using assms q x by (simp add: zero_less_divide_iff)
  let ?a = "bitlen p - bitlen q"
  note bp = int_pow2_bounds [OF p] and bq = int_pow2_bounds [OF q]
  have qr: "(0 :: rat) < of_int q" using q by simp
  have "x < pow2 (bitlen p) / pow2 (bitlen q - 1)"
  proof -
    have "x < pow2 (bitlen p) / of_int q" unfolding x using bp qr by (simp add: divide_strict_right_mono)
    also have "\<dots> \<le> pow2 (bitlen p) / pow2 (bitlen q - 1)"
      using bq pow2_pos [of "bitlen q - 1"] pow2_pos [of "bitlen p"] by (simp add: frac_le)
    finally show ?thesis .
  qed
  moreover have "pow2 (bitlen p) / pow2 (bitlen q - 1) = pow2 (bitlen p - (bitlen q - 1))"
    by (simp only: pow2_diff)
  moreover have "bitlen p - (bitlen q - 1) = ?a + 1" by simp
  ultimately have up: "x < pow2 (?a + 1)" by simp
  have "pow2 (bitlen p - 1) / pow2 (bitlen q) < x"
  proof -
    have "pow2 (bitlen p - 1) / pow2 (bitlen q) < pow2 (bitlen p - 1) / of_int q"
      using bq qr pow2_pos [of "bitlen p - 1"] by (simp add: divide_strict_left_mono)
    also have "\<dots> \<le> x" unfolding x using bp qr by (simp add: divide_right_mono)
    finally show ?thesis .
  qed
  moreover have "pow2 (bitlen p - 1) / pow2 (bitlen q) = pow2 (bitlen p - 1 - bitlen q)"
    by (simp only: pow2_diff)
  moreover have "bitlen p - 1 - bitlen q = ?a - 1" by simp
  ultimately have lo: "pow2 (?a - 1) < x" by simp
  show ?thesis
    using up lo by (simp add: ilog2_def pq Let_def)
qed

lemma ilog2_less: "0 < x \<Longrightarrow> x < pow2 k \<Longrightarrow> ilog2 x < k"
  using ilog2_bounds [of x] pow2_less_cancel [of "ilog2 x" k] by simp

lemma ilog2_ge: "0 < x \<Longrightarrow> pow2 k \<le> x \<Longrightarrow> k \<le> ilog2 x"
  using ilog2_bounds [of x] pow2_less_cancel [of k "ilog2 x + 1"] by simp

lemma round_double_le_int:
  assumes "\<bar>x\<bar> < 2 ^ 53" and "x \<le> of_int n"
  shows "round_double x \<le> of_int n"
proof (cases "x = 0")
  case True
  then show ?thesis using assms by (simp add: round_double_def)
next
  case False
  then have "ilog2 \<bar>x\<bar> < 53" using assms ilog2_less [of "\<bar>x\<bar>" 53] by (simp add: pow2_def)
  define j where "j = nat (52 - ilog2 \<bar>x\<bar>)"
  with \<open>ilog2 \<bar>x\<bar> < 53\<close> have j: "ilog2 \<bar>x\<bar> - 52 = - int j" by simp
  have "pow2 (- int j) * 2 ^ j = 1"
    using pow2_add [of "- int j" "int j"] by (simp add: pow2_nat pow2_def)
  then have "of_int n = of_int (n * 2 ^ j) * pow2 (ilog2 \<bar>x\<bar> - 52)"
    by (simp add: j mult.assoc mult.commute)
  from round_double_grid_le [OF False this assms(2)] show ?thesis .
qed

lemma round_double_ge_int:
  assumes "\<bar>x\<bar> < 2 ^ 53" and "of_int n \<le> x"
  shows "of_int n \<le> round_double x"
proof (cases "x = 0")
  case True
  then show ?thesis using assms by (simp add: round_double_def)
next
  case False
  then have "ilog2 \<bar>x\<bar> < 53" using assms ilog2_less [of "\<bar>x\<bar>" 53] by (simp add: pow2_def)
  define j where "j = nat (52 - ilog2 \<bar>x\<bar>)"
  with \<open>ilog2 \<bar>x\<bar> < 53\<close> have j: "ilog2 \<bar>x\<bar> - 52 = - int j" by simp
  have "pow2 (- int j) * 2 ^ j = 1"
    using pow2_add [of "- int j" "int j"] by (simp add: pow2_nat pow2_def)
  then have "of_int n = of_int (n * 2 ^ j) * pow2 (ilog2 \<bar>x\<bar> - 52)"
    by (simp add: j mult.assoc mult.commute)
  from round_double_grid_ge [OF False this assms(2)] show ?thesis .
qed

lemma round_double_of_int:
  assumes "\<bar>n\<bar> < 2 ^ 53"
  shows "round_double (of_int n) = of_int n"
proof -
  have "\<bar>of_int n :: rat\<bar> < 2 ^ 53"
    using assms by (metis of_int_abs of_int_less_iff of_int_numeral of_int_power)
  then show ?thesis
    using round_double_le_int [of "of_int n" n] round_double_ge_int [of "of_int n" n]
    by simp
qed

lemma isqrt_from_correct:
  assumes "0 \<le> r" and "r * r \<le> N" and "N < (r + 2 ^ Suc k) * (r + 2 ^ Suc k)"
  shows "r \<le> isqrt_from N r k \<and> isqrt_from N r k * isqrt_from N r k \<le> N
         \<and> N < (isqrt_from N r k + 1) * (isqrt_from N r k + 1)"
  using assms
proof (induction k arbitrary: r)
  case 0
  then show ?case by (auto simp: algebra_simps)
next
  case (Suc k)
  show ?case
  proof (cases "(r + 2 ^ Suc k) * (r + 2 ^ Suc k) \<le> N")
    case True
    have "N < (r + 2 ^ Suc k + 2 ^ Suc k) * (r + 2 ^ Suc k + 2 ^ Suc k)"
      using Suc.prems(3) by (simp add: algebra_simps)
    with True Suc.prems have "r + 2 ^ Suc k \<le> isqrt_from N (r + 2 ^ Suc k) k \<and>
        isqrt_from N (r + 2 ^ Suc k) k * isqrt_from N (r + 2 ^ Suc k) k \<le> N \<and>
        N < (isqrt_from N (r + 2 ^ Suc k) k + 1) * (isqrt_from N (r + 2 ^ Suc k) k + 1)"
      by (intro Suc.IH) auto
    then have *: "r + 2 ^ Suc k \<le> isqrt_from N (r + 2 ^ Suc k) k"
      and **: "isqrt_from N (r + 2 ^ Suc k) k * isqrt_from N (r + 2 ^ Suc k) k \<le> N \<and>
        N < (isqrt_from N (r + 2 ^ Suc k) k + 1) * (isqrt_from N (r + 2 ^ Suc k) k + 1)"
      by blast+
    have "r \<le> r + 2 ^ Suc k" by simp
    from this * have "r \<le> isqrt_from N (r + 2 ^ Suc k) k" by (rule order_trans)
    with ** True show ?thesis by (simp del: power_Suc)
  next
    case False
    with Suc.prems have "r \<le> isqrt_from N r k \<and> isqrt_from N r k * isqrt_from N r k \<le> N \<and>
        N < (isqrt_from N r k + 1) * (isqrt_from N r k + 1)"
      by (intro Suc.IH) auto
    with False show ?thesis by auto
  qed
qed

lemma isqrt_correct:
  assumes "0 \<le> N"
  shows "0 \<le> isqrt N \<and> isqrt N * isqrt N \<le> N \<and> N < (isqrt N + 1) * (isqrt N + 1)"
proof -
  let ?k = "nat (bitlen N)"
  have "N < 2 ^ ?k"
  proof (cases "N = 0")
    case True then show ?thesis by simp
  next
    case False
    with assms have "0 < N" by simp
    from bitlen_bounds [OF this] show ?thesis by simp
  qed
  also have "(2 :: int) ^ ?k \<le> 2 ^ Suc ?k * 2 ^ Suc ?k"
  proof -
    have "(2 :: int) ^ ?k \<le> 2 ^ (Suc ?k + Suc ?k)" by (rule power_increasing) auto
    then show ?thesis by (simp only: power_add)
  qed
  finally have "N < (0 + 2 ^ Suc ?k) * (0 + 2 ^ Suc ?k)" by simp
  from isqrt_from_correct [of 0 N ?k, OF _ _ this] assms show ?thesis
    by (simp add: isqrt_def)
qed

lemma isqrt_unique:
  assumes "0 \<le> k" "k * k \<le> N" "N < (k + 1) * (k + 1)" "0 \<le> (N :: int)"
  shows "isqrt N = k"
proof -
  note c = isqrt_correct [OF assms(4)]
  let ?s = "isqrt N"
  have "\<not> ?s < k"
  proof
    assume "?s < k"
    then have "?s + 1 \<le> k" by simp
    with c have "(?s + 1) * (?s + 1) \<le> k * k" by (intro mult_mono) auto
    with c assms show False by simp
  qed
  moreover have "\<not> k < ?s"
  proof
    assume "k < ?s"
    then have "k + 1 \<le> ?s" by simp
    with assms have "(k + 1) * (k + 1) \<le> ?s * ?s" by (intro mult_mono) auto
    with c assms show False by simp
  qed
  ultimately show ?thesis by simp
qed

lemma isqrt_real:
  assumes "0 \<le> N"
  shows "isqrt N = \<lfloor>sqrt (real_of_int N)\<rfloor>"
proof -
  note c = isqrt_correct [OF assms]
  let ?s = "isqrt N"
  have "(real_of_int ?s)\<^sup>2 \<le> real_of_int N"
    using c by (metis of_int_le_iff of_int_mult power2_eq_square)
  then have lo: "real_of_int ?s \<le> sqrt (real_of_int N)" by (rule real_le_rsqrt)
  have "real_of_int N < (real_of_int (?s + 1))\<^sup>2"
    using c by (metis of_int_less_iff of_int_mult power2_eq_square)
  then have hi: "sqrt (real_of_int N) < real_of_int (?s + 1)"
    using c by (intro real_less_lsqrt) auto
  from lo hi have "\<lfloor>sqrt (real_of_int N)\<rfloor> = ?s" by (intro floor_unique) auto
  then show ?thesis by simp
qed

lemma sq_le_imp_le:
  fixes a b :: int
  assumes "0 \<le> b" and "a * a \<le> b * b"
  shows "a \<le> b"
proof (rule ccontr)
  assume "\<not> a \<le> b"
  then have "b + 1 \<le> a" by simp
  with assms(1) have "(b + 1) * (b + 1) \<le> a * a" by (intro mult_mono) auto
  with assms show False by (simp add: algebra_simps)
qed

lemma sq_less_imp_less:
  fixes a b :: int
  assumes "0 \<le> b" and "a * a < b * b"
  shows "a < b"
proof (rule ccontr)
  assume "\<not> a < b"
  then have "b \<le> a" by simp
  with assms(1) have "b * b \<le> a * a" by (intro mult_mono) auto
  with assms show False by simp
qed

lemma grid_lower:
  fixes k S r n :: int
  assumes "0 \<le> k" "k * k \<le> n" "0 < S" "0 \<le> r" "n * (S * S) < (r + 1) * (r + 1)"
  shows "k * S \<le> r"
proof -
  have "(k * S) * (k * S) = (k * k) * (S * S)" by (simp add: algebra_simps)
  also have "\<dots> \<le> n * (S * S)" by (rule mult_right_mono) (use assms in auto)
  also have "\<dots> < (r + 1) * (r + 1)" using assms by simp
  finally have "(k * S) * (k * S) < (r + 1) * (r + 1)" .
  then have "k * S < r + 1" by (rule sq_less_imp_less [rotated]) (use assms in auto)
  then show ?thesis by simp
qed

lemma grid_upper:
  fixes k S r n :: int
  assumes "0 \<le> k" "n < (k + 1) * (k + 1)" "0 < S" "r * r \<le> n * (S * S)"
  shows "r < (k + 1) * S"
proof -
  have "r * r \<le> n * (S * S)" using assms by simp
  also have "\<dots> < ((k + 1) * (k + 1)) * (S * S)"
    by (rule mult_strict_right_mono) (use assms in auto)
  also have "\<dots> = ((k + 1) * S) * ((k + 1) * S)" by (simp add: algebra_simps)
  finally have "r * r < ((k + 1) * S) * ((k + 1) * S)" .
  then show ?thesis by (rule sq_less_imp_less [rotated]) (use assms in auto)
qed

lemma floor_fl_sqrt:
  assumes "0 \<le> n" and "n < 2 ^ 52"
  shows "\<lfloor>fl_sqrt n\<rfloor> = isqrt n"
proof (cases "n = 0")
  case True
  have "isqrt 0 = 0" by (rule isqrt_unique) auto
  with True show ?thesis by (simp add: fl_sqrt_def)
next
  case False
  with assms have npos: "0 < n" by simp
  define e where "e = (bitlen n - 1) div 2"
  define s where "s = nat (52 - e)"
  define S :: int where "S = 2 ^ s"
  define N where "N = n * 4 ^ s"
  define r where "r = isqrt N"
  define k where "k = isqrt n"
  define m where "m = (if N \<le> r * r + r then r else r + 1)"
  have "bitlen n \<le> 52" using assms by (simp add: bitlen_le_iff_power)
  then have "e \<le> 25" by (simp add: e_def)
  then have s27: "27 \<le> s" by (simp add: s_def)
  have Spos: "0 < S" by (simp add: S_def)
  have "(2 :: int) ^ 27 \<le> 2 ^ s" using s27 by (rule power_increasing) auto
  then have S27: "2 ^ 27 \<le> S" by (simp add: S_def)
  have "(4 :: int) ^ s = (2 * 2) ^ s" by simp
  also have "\<dots> = 2 ^ s * 2 ^ s" by (simp only: power_mult_distrib)
  finally have NS: "N = n * (S * S)" by (simp add: N_def S_def)
  have N0: "0 \<le> N" using assms Spos by (simp add: NS)
  note ck = isqrt_correct [OF assms(1), folded k_def]
  note cr = isqrt_correct [OF N0, folded r_def]
  have k26: "k < 2 ^ 26"
  proof -
    have "k * k < 2 ^ 26 * 2 ^ 26" using ck assms by simp
    then show ?thesis by (rule sq_less_imp_less [rotated]) auto
  qed
  have kS_le_r: "k * S \<le> r"
    by (rule grid_lower [where n = n]) (use ck cr Spos in \<open>auto simp: NS\<close>)
  have r_less: "r < (k + 1) * S"
    by (rule grid_upper [where n = n]) (use ck cr Spos in \<open>auto simp: NS\<close>)
  have m_ge: "k * S \<le> m" using kS_le_r by (simp add: m_def)
  have m_less: "m < (k + 1) * S"
  proof (cases "N \<le> r * r + r")
    case True
    then show ?thesis using r_less by (simp add: m_def)
  next
    case False
    have "r + 1 \<noteq> (k + 1) * S"
    proof
      assume eq: "r + 1 = (k + 1) * S"
      have "n + 1 \<le> (k + 1) * (k + 1)" using ck by simp
      then have "(n + 1) * (S * S) \<le> ((k + 1) * (k + 1)) * (S * S)"
        by (rule mult_right_mono) (use Spos in auto)
      also have "\<dots> = ((k + 1) * S) * ((k + 1) * S)" by (simp add: algebra_simps)
      also have "\<dots> = (r + 1) * (r + 1)" by (simp only: eq)
      finally have "N + S * S \<le> r * r + 2 * r + 1" by (simp add: NS algebra_simps)
      with False have "S * S \<le> r + 1" by simp
      then have "S * S \<le> (k + 1) * S" by (simp only: eq)
      then have "S \<le> k + 1" using Spos by simp
      with S27 k26 show False by simp
    qed
    with r_less show ?thesis using False by (simp add: m_def)
  qed
  have "fl_sqrt n = of_int m / of_int S"
    using npos by (simp add: fl_sqrt_def Let_def e_def s_def N_def r_def m_def S_def)
  then have "\<lfloor>fl_sqrt n\<rfloor> = m div S" by (simp only: floor_divide_of_int_eq)
  also have "m div S = k"
  proof -
    have "m = S * k + (m - k * S)" by simp
    moreover have "0 \<le> m - k * S" "m - k * S < S" using m_ge m_less by (simp_all add: algebra_simps)
    ultimately show ?thesis by (rule int_div_pos_eq [where r = "m - k * S"]) 
  qed
  finally show ?thesis by (simp add: k_def)
qed

lemma round_half_even_mono:
  assumes "x \<le> y" shows "round_half_even x \<le> round_half_even y"
proof (cases "\<lfloor>x\<rfloor> = \<lfloor>y\<rfloor>")
  case True
  then have "x - of_int \<lfloor>x\<rfloor> \<le> y - of_int \<lfloor>y\<rfloor>" using assms by simp
  then show ?thesis using True by (auto simp: round_half_even_def Let_def)
next
  case False
  have "\<lfloor>x\<rfloor> \<le> \<lfloor>y\<rfloor>" using assms by (rule floor_mono)
  with False have "\<lfloor>x\<rfloor> + 1 \<le> \<lfloor>y\<rfloor>" by simp
  moreover have "round_half_even x \<le> \<lfloor>x\<rfloor> + 1" by (simp add: round_half_even_def Let_def)
  moreover have "\<lfloor>y\<rfloor> \<le> round_half_even y" by (simp add: round_half_even_def Let_def)
  ultimately show ?thesis by linarith
qed

lemma round_half_even_of_int: "round_half_even (of_int k) = k"
  by (simp add: round_half_even_def)

lemma ilog2_unique:
  assumes "pow2 e \<le> x" and "x < pow2 (e + 1)"
  shows "ilog2 x = e"
proof -
  have "0 < x" using assms(1) pow2_pos [of e] by simp
  from ilog2_less [OF this assms(2)] ilog2_ge [OF this assms(1)] show ?thesis by simp
qed

lemma pow2_52: "pow2 52 = 2 ^ 52" and pow2_53: "pow2 53 = 2 ^ 53"
  by (simp_all add: pow2_def)

lemma pow2_as_grid: "pow2 (e + int j) = of_int (2 ^ j) * pow2 e"
  by (simp add: pow2_add pow2_nat mult.commute)

lemma round_double_pos_bounds:
  assumes "0 < x"
  shows "pow2 (ilog2 x) \<le> round_double x \<and> round_double x \<le> pow2 (ilog2 x + 1)"
proof -
  have nz: "x \<noteq> 0" and ab: "\<bar>x\<bar> = x" using assms by simp_all
  note b = ilog2_bounds [OF assms]
  have g1: "pow2 (ilog2 x) = of_int (2 ^ 52) * pow2 (ilog2 \<bar>x\<bar> - 52)"
    using pow2_as_grid [of "ilog2 x - 52" 52] by (simp add: ab)
  have g2: "pow2 (ilog2 x + 1) = of_int (2 ^ 53) * pow2 (ilog2 \<bar>x\<bar> - 52)"
    using pow2_as_grid [of "ilog2 x - 52" 53] by (simp add: ab add.commute)
  from round_double_grid_ge [OF nz g1] round_double_grid_le [OF nz g2] b
  show ?thesis by simp
qed

lemma round_double_mono:
  assumes "0 < x" and "x \<le> y"
  shows "round_double x \<le> round_double y"
proof -
  have ypos: "0 < y" using assms by simp
  have le: "ilog2 x \<le> ilog2 y"
  proof -
    have "pow2 (ilog2 x) \<le> y" using ilog2_bounds [OF assms(1)] assms(2) by simp
    from ilog2_ge [OF ypos this] show ?thesis .
  qed
  show ?thesis
  proof (cases "ilog2 x = ilog2 y")
    case True
    let ?u = "pow2 (ilog2 y - 52)"
    have u: "0 < ?u" by (rule pow2_pos)
    have "x / ?u \<le> y / ?u" using assms u by (simp add: divide_right_mono)
    then have "round_half_even (x / ?u) \<le> round_half_even (y / ?u)" by (rule round_half_even_mono)
    then have "(of_int (round_half_even (x / ?u)) :: rat) * ?u \<le> of_int (round_half_even (y / ?u)) * ?u"
      using u by simp
    then show ?thesis using assms ypos True by (simp add: round_double_def Let_def)
  next
    case False
    with le have "ilog2 x + 1 \<le> ilog2 y" by simp
    then have "pow2 (ilog2 x + 1) \<le> pow2 (ilog2 y)" by (rule pow2_mono)
    with round_double_pos_bounds [OF assms(1)] round_double_pos_bounds [OF ypos]
    show ?thesis by linarith
  qed
qed

lemma round_double_idem: "round_double (round_double x) = round_double x" if "0 \<le> x"
proof (cases "x = 0")
  case True
  then show ?thesis by (simp add: round_double_def)
next
  case False
  with that have xpos: "0 < x" by simp
  let ?e = "ilog2 x"
  let ?u = "pow2 (?e - 52)"
  let ?M = "round_half_even (x / ?u)"
  have u: "0 < ?u" by (rule pow2_pos)
  have rx: "round_double x = of_int ?M * ?u" using xpos by (simp add: round_double_def Let_def)
  note b = round_double_pos_bounds [OF xpos]
  have rpos: "0 < round_double x" using b pow2_pos [of ?e] by linarith
  show ?thesis
  proof (cases "round_double x < pow2 (?e + 1)")
    case True
    with b have "ilog2 (round_double x) = ?e" by (intro ilog2_unique) auto
    moreover have "round_double x / ?u = of_int ?M" using u by (simp add: rx)
    ultimately have "round_double (round_double x) = of_int (round_half_even (of_int ?M)) * ?u"
      using rpos by (simp add: round_double_def [of "round_double x"] Let_def)
    then show ?thesis by (simp only: round_half_even_of_int rx)
  next
    case False
    define e1 where "e1 = ilog2 x + 1"
    from False b have eq: "round_double x = pow2 e1" by (simp add: e1_def)
    have grid: "pow2 e1 = of_int (2 ^ 52) * pow2 (e1 - 52)"
      using pow2_as_grid [of "e1 - 52" 52] by simp
    have u1: "0 < pow2 (e1 - 52)" by (rule pow2_pos)
    have "pow2 e1 < pow2 (e1 + 1)"
      using pow2_add [of e1 1] pow2_pos [of e1] by (simp add: pow2_def)
    then have il: "ilog2 (pow2 e1) = e1" by (intro ilog2_unique) auto
    have "pow2 e1 / pow2 (e1 - 52) = of_int (2 ^ 52)"
      using u1 by (subst grid) simp
    then have "round_half_even (pow2 e1 / pow2 (e1 - 52)) = 2 ^ 52"
      by (simp only: round_half_even_of_int)
    then have "round_double (pow2 e1) = of_int (2 ^ 52) * pow2 (e1 - 52)"
      using pow2_pos [of e1] by (simp add: round_double_def Let_def il)
    then show ?thesis by (simp only: eq grid [symmetric])
  qed
qed

section \<open>The range of a score\<close>

lemma round_double_mono0:
  assumes "0 \<le> x" and "x \<le> y" shows "round_double x \<le> round_double y"
proof (cases "x = 0")
  case True
  then show ?thesis using assms round_double_nonneg [of y] by (simp add: round_double_def)
next
  case False
  with assms show ?thesis by (intro round_double_mono) auto
qed

lemma round_double_le_int0:
  assumes "0 \<le> x" and "x \<le> of_int n" and "n < 2 ^ 53"
  shows "round_double x \<le> of_int n"
proof -
  have "(of_int n :: rat) < of_int (2 ^ 53)" using assms(3) by (simp only: of_int_less_iff)
  with assms have "\<bar>x\<bar> < 2 ^ 53" by simp
  then show ?thesis using assms(2) by (rule round_double_le_int)
qed

lemma to_float_nonneg: "0 \<le> exact_val x \<Longrightarrow> 0 \<le> to_float x"
  by (cases x) (auto intro: round_double_nonneg)

lemma py_add_nonneg:
  "0 \<le> exact_val x \<Longrightarrow> 0 \<le> exact_val y \<Longrightarrow> 0 \<le> exact_val (py_add x y)"
  by (cases x; cases y) (auto intro!: round_double_nonneg add_nonneg_nonneg)

lemma add_penalty_nonneg:
  assumes "add_penalty dm s pen is = Inr p" and "0 \<le> exact_val dm" and "0 \<le> exact_val pen"
  shows "0 \<le> exact_val p"
  using assms
proof (induction "is" arbitrary: pen)
  case Nil
  then show ?case by simp
next
  case (Cons i "is")
  from Cons.prems(1) have lt: "\<not> length s \<le> i"
    and rec: "add_penalty dm s (py_add pen (if isdigit (s ! i) then dm else PInt 1)) is = Inr p"
    by (auto split: if_splits)
  have "0 \<le> exact_val (py_add pen (if isdigit (s ! i) then dm else PInt 1))"
    using Cons.prems by (intro py_add_nonneg) auto
  from Cons.IH [OF rec Cons.prems(2) this] show ?case .
qed

lemma to_float_py_add_ge:
  assumes "0 \<le> m" and "0 \<le> exact_val pen"
  shows "to_float (PInt m) \<le> to_float (py_add (PInt m) pen)"
proof (cases pen)
  case (PInt p)
  with assms have "(of_int m :: rat) \<le> of_int (m + p)" by simp
  with assms PInt show ?thesis by (simp add: round_double_mono0)
next
  case (PFloat p)
  have m0: "(0 :: rat) \<le> of_int m" using assms by simp
  have r0: "0 \<le> round_double (of_int m)" using m0 by (rule round_double_nonneg)
  have "round_double (round_double (of_int m)) \<le> round_double (round_double (of_int m) + p)"
    using r0 assms PFloat by (intro round_double_mono0) auto
  then show ?thesis using PFloat m0 by (simp add: round_double_idem)
qed

lemma ratio_range:
  assumes "py_truediv (PInt m) (py_add (PInt m) pen) = Inr q" and "0 \<le> m" and "0 \<le> exact_val pen"
  shows "\<exists>r. q = PFloat r \<and> 0 \<le> r \<and> r \<le> 1"
proof (cases pen)
  case (PInt p)
  with assms have nz: "m + p \<noteq> 0" and q: "q = PFloat (round_double (of_int m / of_int (m + p)))"
    by (auto split: if_splits)
  have p0: "0 \<le> p" using assms PInt by simp
  let ?x = "(of_int m :: rat) / of_int (m + p)"
  have x0: "0 \<le> ?x" using assms p0 by simp
  have "(of_int m :: rat) \<le> of_int (m + p)" using p0 by simp
  moreover have "(0 :: rat) < of_int (m + p)" using nz assms p0 by simp
  ultimately have x1: "?x \<le> 1" by (simp add: divide_le_eq_1)
  have "round_double ?x \<le> of_int 1" using x0 by (rule round_double_le_int0) (use x1 in auto)
  with round_double_nonneg [OF x0] q show ?thesis by simp
next
  case (PFloat p)
  let ?x = "round_double (of_int m)"
  let ?y = "round_double (?x + p)"
  from assms PFloat have nz: "?y \<noteq> 0" and q: "q = PFloat (round_double (?x / ?y))"
    by (auto split: if_splits)
  have xy: "?x \<le> ?y" using to_float_py_add_ge [OF assms(2,3)] PFloat by simp
  have x0: "0 \<le> ?x" using assms by (intro round_double_nonneg) auto
  with xy nz have y0: "0 < ?y" by simp
  have r0: "0 \<le> ?x / ?y" using x0 y0 by simp
  have r1: "?x / ?y \<le> 1" using xy y0 by (simp add: divide_le_eq_1)
  have "round_double (?x / ?y) \<le> of_int 1" using r0 by (rule round_double_le_int0) (use r1 in auto)
  with round_double_nonneg [OF r0] q show ?thesis by simp
qed

lemma percent_range:
  assumes "0 \<le> r" and "r \<le> 1"
  shows "0 \<le> py_int (py_mul (PInt 100) (PFloat r)) \<and> py_int (py_mul (PInt 100) (PFloat r)) \<le> 100"
proof -
  have h: "round_double (of_int 100) = of_int 100" by (rule round_double_of_int) simp
  let ?x = "100 * r"
  have x0: "0 \<le> ?x" and x1: "?x \<le> 100" using assms by simp_all
  have "round_double ?x \<le> of_int 100" using x0 by (rule round_double_le_int0) (use x1 in auto)
  moreover note round_double_nonneg [OF x0]
  ultimately show ?thesis using h by (simp add: floor_le_iff le_floor_iff)
qed

lemma block_matches_nonneg: "0 \<le> block_matches bs"
  by (induction bs) (auto simp: block_matches_def)

lemma score_blocks_range:
  assumes "score_blocks dm a b bs = Inr sc" and "0 \<le> exact_val dm"
  shows "0 \<le> sc \<and> sc \<le> 100"
proof -
  obtain da db where d: "diff_positions 0 0 bs = (da, db)" by (cases "diff_positions 0 0 bs")
  from assms(1) d obtain p1 where p1: "add_penalty dm a (PInt 0) da = Inr p1"
    by (auto simp: score_blocks_def split: sum.splits)
  from assms(1) d p1 obtain pen where pen: "add_penalty dm b p1 db = Inr pen"
    by (auto simp: score_blocks_def split: sum.splits)
  from assms(1) d p1 pen obtain q
    where q: "py_truediv (PInt (block_matches bs)) (py_add (PInt (block_matches bs)) pen) = Inr q"
      and sc: "sc = py_int (py_mul (PInt 100) q)"
    by (auto simp: score_blocks_def Let_def split: sum.splits)
  have "0 \<le> exact_val p1" using p1 assms(2) by (rule add_penalty_nonneg) simp
  with pen assms(2) have "0 \<le> exact_val pen" by (rule add_penalty_nonneg)
  from ratio_range [OF q block_matches_nonneg this] obtain r
    where "q = PFloat r" "0 \<le> r" "r \<le> 1" by blast
  with percent_range [of r] sc show ?thesis by simp
qed

lemma compute_score_range:
  assumes "compute_score al fus = Inr (sc, fus')" and "0 \<le> exact_val (digit_multiplier fus)"
  shows "0 \<le> sc \<and> sc \<le> 100"
proof -
  from assms(1) consider "sc = 100" | "sc = 0"
    | a b bs where "score_blocks (digit_multiplier fus) a b bs = Inr sc"
    by (auto simp: compute_score_def Let_def
        split: pyval.splits sum.splits option.splits if_splits prod.splits)
  then show ?thesis
  proof cases
    case 3
    then show ?thesis using assms(2) by (rule score_blocks_range)
  qed simp_all
qed

section \<open>The loops as maps\<close>

lemma FuzzyScorer_ready:
  "FuzzyScorer to_match NoneVal dm st = Inr fus \<Longrightarrow> ready (seq2 fus) dm st fus"
  by (auto simp: FuzzyScorer_def ready_def split: if_splits sum.splits)

lemma set_choice_ready:
  assumes "ready q dm st fus"
  shows "set_choice fus c =
           (case (if st then sort_and_token c else Inr c) of
              Inl e \<Rightarrow> Inl e
            | Inr s1 \<Rightarrow> Inr \<lparr>seq1 = s1, seq2 = q, seqmat = Some (s1, q),
                              digit_multiplier = dm, sorted_token = st\<rparr>)"
  using assms by (cases fus) (auto simp: set_choice_def ready_def split: sum.splits)

lemma set_choice_keeps_ready:
  "ready q dm st fus \<Longrightarrow> set_choice fus c = Inr fus1 \<Longrightarrow> ready q dm st fus1"
  by (auto simp: set_choice_ready ready_def split: sum.splits if_splits)

lemma compute_score_keeps:
  "compute_score al fus = Inr (sc, fus') \<Longrightarrow> seqmat fus \<noteq> None \<Longrightarrow> fus' = fus"
  by (auto simp: compute_score_def Let_def split: pyval.splits sum.splits option.splits if_splits prod.splits)

lemma one_step:
  assumes r: "ready q dm st fus" and r0: "ready q dm st fus0"
    and f0: "FuzzyScorer to_match NoneVal dm st = Inr fus0"
  shows "(case set_choice fus c of Inl e \<Rightarrow> Inl e | Inr fus1 \<Rightarrow>
            (case compute_score al fus1 of Inl e \<Rightarrow> Inl e | Inr (sc, fus2) \<Rightarrow> Inr sc))
         = score_pair al dm st to_match c"
  unfolding score_pair_def f0 by (simp add: set_choice_ready [OF r] set_choice_ready [OF r0])

lemma score_loop_map:
  assumes "score_loop al fus cs = Inr scs" and "ready q dm False fus" and "ready q dm False fus0"
    and "FuzzyScorer to_match NoneVal dm False = Inr fus0"
  shows "scs = map (\<lambda>c. projr (score_pair al dm False to_match (Str c))) cs
         \<and> (\<forall>c \<in> set cs. \<exists>sc. score_pair al dm False to_match (Str c) = Inr sc)"
  using assms(1,2)
proof (induction cs arbitrary: fus scs)
  case Nil
  then show ?case by simp
next
  case (Cons c cs)
  from Cons.prems(1) obtain fus1 sc fus2 rest where
    s: "set_choice fus (Str c) = Inr fus1" and c: "compute_score al fus1 = Inr (sc, fus2)"
    and l: "score_loop al fus2 cs = Inr rest" and scs: "scs = sc # rest"
    by (auto split: sum.splits)
  have r1: "ready q dm False fus1" using Cons.prems(2) s by (rule set_choice_keeps_ready)
  then have "seqmat fus1 \<noteq> None" by (auto simp: ready_def)
  with c have "fus2 = fus1" by (rule compute_score_keeps)
  with r1 have r2: "ready q dm False fus2" by simp
  have "score_pair al dm False to_match (Str c) = Inr sc"
    using one_step [OF Cons.prems(2) assms(3,4), where c = "Str c" and al = al] s c by simp
  with Cons.IH [OF l r2] scs show ?case by simp
qed

lemma token_loop_map:
  assumes "token_loop al fus half cs raws = Inr ts" and "ready q dm True fus" and "ready q dm True fus0"
    and "FuzzyScorer to_match NoneVal dm True = Inr fus0" and "length raws = length cs"
  shows "ts = map2 (\<lambda>c raw. if raw = 100 then 100 else if raw < half then 0
                              else projr (score_pair al dm True to_match (Str c))) cs raws
         \<and> (\<forall>(c, raw) \<in> set (zip cs raws). raw \<noteq> 100 \<and> \<not> raw < half \<longrightarrow>
               (\<exists>sc. score_pair al dm True to_match (Str c) = Inr sc))"
  using assms(1,2,5)
proof (induction cs arbitrary: fus ts raws)
  case Nil
  then show ?case by simp
next
  case (Cons c cs)
  from Cons.prems(3) obtain raw rs where raws: "raws = raw # rs" and len: "length rs = length cs"
    by (cases raws) auto
  show ?case
  proof (cases "raw = 100 \<or> raw < half")
    case True
    with Cons.prems(1) raws obtain rest where
      l: "token_loop al fus half cs rs = Inr rest"
      and ts: "ts = (if raw = 100 then 100 else 0) # rest"
      by (auto split: sum.splits if_splits)
    from Cons.IH [OF l Cons.prems(2) len] ts True raws show ?thesis by auto
  next
    case False
    with Cons.prems(1) raws obtain fus1 sc fus2 rest where
      s: "set_choice fus (Str c) = Inr fus1" and c: "compute_score al fus1 = Inr (sc, fus2)"
      and l: "token_loop al fus2 half cs rs = Inr rest" and ts: "ts = sc # rest"
      by (auto split: sum.splits)
    have r1: "ready q dm True fus1" using Cons.prems(2) s by (rule set_choice_keeps_ready)
    then have "seqmat fus1 \<noteq> None" by (auto simp: ready_def)
    with c have "fus2 = fus1" by (rule compute_score_keeps)
    with r1 have r2: "ready q dm True fus2" by simp
    have "score_pair al dm True to_match (Str c) = Inr sc"
      using one_step [OF Cons.prems(2) assms(3,4), where c = "Str c" and al = al] s c by simp
    with Cons.IH [OF l r2 len] ts False raws show ?thesis by auto
  qed
qed

lemma map2_map_same: "map2 h xs (map f xs) = map (\<lambda>x. h x (f x)) xs"
  by (induction xs) auto

lemma map2_map_map: "map2 h (map f xs) (map g xs) = map (\<lambda>x. h (f x) (g x)) xs"
  by (induction xs) auto

lemma zip_map_same: "zip (map f xs) (map g xs) = map (\<lambda>x. (f x, g x)) xs"
  by (induction xs) auto

lemma FuzzyScorer_False: "FuzzyScorer to_match NoneVal dm False
    = Inr \<lparr>seq1 = NoneVal, seq2 = to_match, seqmat = Some (NoneVal, to_match),
           digit_multiplier = dm, sorted_token = False\<rparr>"
  by (simp add: FuzzyScorer_def)

lemma stage_scores_map:
  assumes "stage_scores al (Str q) dm thr oi cs = Inr (scores, imp)"
  shows "scores = map (stage_score al dm thr oi q) cs
      \<and> imp = (if oi then map (stage_improved al dm thr q) cs else [])
      \<and> (\<forall>c \<in> set cs. score_pair al dm False (Str q) (Str c) = Inr (raw_score al dm q c))
      \<and> (oi \<longrightarrow> (\<forall>c \<in> set cs. raw_score al dm q c \<noteq> 100
                   \<and> \<not> raw_score al dm q c < half_valid_threshold thr \<longrightarrow>
                 score_pair al dm True (Str q) (Str c) = Inr (token_score al dm q c)))"
proof -
  obtain fus where f: "FuzzyScorer (Str q) NoneVal dm False = Inr fus"
    by (simp add: FuzzyScorer_False)
  from FuzzyScorer_ready [OF f] f have rf: "ready (Str q) dm False fus"
    by (simp add: FuzzyScorer_False) (auto simp: ready_def)
  from assms f obtain raw where raw: "score_loop al fus cs = Inr raw"
    by (auto simp: stage_scores_def split: sum.splits)
  from score_loop_map [OF raw rf rf f]
  have rawmap: "raw = map (raw_score al dm q) cs"
    and rawok: "\<forall>c \<in> set cs. \<exists>sc. score_pair al dm False (Str q) (Str c) = Inr sc"
    by (simp_all add: raw_score_def)
  have C: "\<forall>c \<in> set cs. score_pair al dm False (Str q) (Str c) = Inr (raw_score al dm q c)"
    using rawok by (auto simp: raw_score_def)
  show ?thesis
  proof (cases oi)
    case False
    with assms f raw rawmap C show ?thesis
      by (auto simp: stage_scores_def stage_score_def)
  next
    case True
    from assms f raw True obtain fust tok where
      ft: "FuzzyScorer (Str q) NoneVal dm True = Inr fust"
      and tok: "token_loop al fust (half_valid_threshold thr) cs raw = Inr tok"
      and res: "scores = map2 max raw tok" "imp = map2 (\<lambda>r t. r < t) raw tok"
      by (auto simp: stage_scores_def split: sum.splits)
    have rt: "ready (seq2 fust) dm True fust" using ft by (rule FuzzyScorer_ready)
    have len: "length raw = length cs" by (simp add: rawmap)
    from token_loop_map [OF tok rt rt ft len]
    have tokmap: "tok = map (\<lambda>c. token_entry (half_valid_threshold thr) (raw_score al dm q c)
                                 (token_score al dm q c)) cs"
      and tokok: "\<forall>(c, raw) \<in> set (zip cs raw). raw \<noteq> 100 \<and> \<not> raw < half_valid_threshold thr \<longrightarrow>
             (\<exists>sc. score_pair al dm True (Str q) (Str c) = Inr sc)"
      by (simp_all add: rawmap map2_map_same token_entry_def token_score_def)
    have D: "\<forall>c \<in> set cs. raw_score al dm q c \<noteq> 100
                 \<and> \<not> raw_score al dm q c < half_valid_threshold thr \<longrightarrow>
               score_pair al dm True (Str q) (Str c) = Inr (token_score al dm q c)"
    proof (intro ballI impI)
      fix c assume "c \<in> set cs"
        and h: "raw_score al dm q c \<noteq> 100 \<and> \<not> raw_score al dm q c < half_valid_threshold thr"
      then have "(c, raw_score al dm q c) \<in> set (zip cs raw)"
        by (auto simp: rawmap zip_map2 zip_same_conv_map image_iff)
      with tokok h obtain sc where "score_pair al dm True (Str q) (Str c) = Inr sc" by blast
      then show "score_pair al dm True (Str q) (Str c) = Inr (token_score al dm q c)"
        by (simp add: token_score_def)
    qed
    have A: "scores = map (stage_score al dm thr oi q) cs"
      using True by (simp add: res rawmap tokmap map2_map_map stage_score_def Let_def)
    have B: "imp = map (stage_improved al dm thr q) cs"
      by (simp add: res rawmap tokmap map2_map_map stage_improved_def Let_def)
    from A B C D True show ?thesis by simp
  qed
qed

lemma compress_filter: "compress (map p xs) xs = filter p xs"
  by (induction xs) (auto simp: compress_def)

lemma compress_map: "compress v (map g xs) = map g (compress v xs)"
proof (induction xs arbitrary: v)
  case Nil
  then show ?case by (simp add: compress_def)
next
  case (Cons x xs)
  then show ?case by (cases v) (auto simp: compress_def)
qed

lemma compress_Nil: "compress v [] = []"
  by (simp add: compress_def)




lemma weighted_scores_map:
  assumes "weighted_scores (map R xs) (map F xs) = Inr ws"
  shows "ws = map (\<lambda>c. projr (weighted_score (R c) (F c))) xs
       \<and> (\<forall>c \<in> set xs. weighted_score (R c) (F c) = Inr (projr (weighted_score (R c) (F c))))"
  using assms by (induction xs arbitrary: ws) (auto split: sum.splits)

lemma take_idx_map:
  "\<forall>i \<in> set idx. i < length xs \<Longrightarrow> take_idx (map g xs) idx = map g (take_idx xs idx)"
  by (simp add: take_idx_def)

lemma argsort_set:
  assumes "argsort_ok srt" shows "set (srt xs) = {0..<length xs}"
proof -
  from assms have "mset (srt xs) = mset [0..<length xs]" by (simp add: argsort_ok_def)
  then have "set (srt xs) = set [0..<length xs]" by (rule mset_eq_setD)
  then show ?thesis by simp
qed

lemma argsort_length:
  assumes "argsort_ok srt" shows "length (srt xs) = length xs"
proof -
  from assms have "mset (srt xs) = mset [0..<length xs]" by (simp add: argsort_ok_def)
  then have "length (srt xs) = length [0..<length xs]" by (rule mset_eq_length)
  then show ?thesis by simp
qed

lemma argpartition_set:
  assumes "argpartition_ok part" and "k < length xs"
  shows "set (part xs k) = {0..<length xs}" and "length (part xs k) = length xs"
proof -
  from assms have m: "mset (part xs k) = mset [0..<length xs]" by (simp add: argpartition_ok_def)
  from mset_eq_setD [OF m] show "set (part xs k) = {0..<length xs}" by simp
  from mset_eq_length [OF m] show "length (part xs k) = length xs" by simp
qed

lemma take_idx_in_range:
  assumes "\<forall>j \<in> set idx. j < length tp" and "\<forall>i \<in> set tp. i < n"
  shows "\<forall>i \<in> set (take_idx tp idx). i < n"
  using assms by (auto simp: take_idx_def)

lemma pos_top_in_range:
  assumes "argsort_ok (argsort lib)" and "argpartition_ok (argpartition lib)"
  shows "\<forall>i \<in> set (pos_top lib top_n ws). i < length ws"
proof (cases "\<exists>n. top_n = Some n \<and> n < length ws")
  case False
  then have "pos_top lib top_n ws = rev (argsort lib ws)"
    by (auto simp: pos_top_def split: option.splits)
  then show ?thesis using argsort_set [OF assms(1), of ws] by auto
next
  case True
  then obtain n where n: "top_n = Some n" "n < length ws" by blast
  define k where "k = (if n = 0 then 0 else length ws - n)"
  define part where "part = argpartition lib ws k"
  define tp where "tp = (if n = 0 then part else drop (length part - n) part)"
  have "k < length ws" using n by (auto simp: k_def)
  from argpartition_set [OF assms(2) this] have "set part = {0..<length ws}"
    by (simp add: part_def)
  then have tp: "\<forall>i \<in> set tp. i < length ws"
    by (auto simp: tp_def dest: in_set_dropD)
  have "\<forall>j \<in> set (argsort lib (take_idx ws tp)). j < length tp"
    using argsort_set [OF assms(1), of "take_idx ws tp"] by (simp add: take_idx_def)
  from take_idx_in_range [OF this tp]
  have "\<forall>i \<in> set (take_idx tp (argsort lib (take_idx ws tp))). i < length ws" .
  moreover have "pos_top lib top_n ws = rev (take_idx tp (argsort lib (take_idx ws tp)))"
    using n by (simp add: pos_top_def Let_def tp_def part_def k_def)
  ultimately show ?thesis by simp
qed

lemma find_cur_best_SomeE:
  assumes "find_cur_best ev registrant fund pool top_n thr dm True oi = Inr (Some res)"
  obtains rem0 rrsc0 imp0 rfsc0 impf where
    "quick_stage registrant fund dm thr pool = Inr rem0"
    "stage_scores (get_matching_blocks ev) registrant dm thr oi (map fst rem0) = Inr (rrsc0, imp0)"
    "stage_scores (get_matching_blocks ev) fund dm thr oi
       (map (\<lambda>c. fst (snd c)) (compress (map (\<lambda>e. py_le thr (PInt e)) rrsc0) rem0)) = Inr (rfsc0, impf)"
    "finalize (np ev) top_n oi
       (compress (map (\<lambda>e. py_le thr (PInt e)) rfsc0) (compress (map (\<lambda>e. py_le thr (PInt e)) rrsc0) rem0))
       (compress (map (\<lambda>e. py_le thr (PInt e)) rfsc0) (compress (map (\<lambda>e. py_le thr (PInt e)) rrsc0) rrsc0))
       (compress (map (\<lambda>e. py_le thr (PInt e)) rfsc0) rfsc0)
       (compress (map (\<lambda>e. py_le thr (PInt e)) rfsc0)
          (map2 (\<or>) (compress (map (\<lambda>e. py_le thr (PInt e)) rrsc0) imp0) impf)) = Inr res"
    "True \<in> set (map (\<lambda>e. py_le thr (PInt e)) rfsc0)"
proof -
  from assms obtain rem0 where q: "quick_stage registrant fund dm thr pool = Inr rem0"
    by (auto simp: find_cur_best_def split: sum.splits if_splits)
  from assms q obtain rrsc0 imp0 where
    s1: "stage_scores (get_matching_blocks ev) registrant dm thr oi (map fst rem0) = Inr (rrsc0, imp0)"
    by (auto simp: find_cur_best_def split: sum.splits if_splits)
  from assms q s1 have v1: "True \<in> set (map (\<lambda>e. py_le thr (PInt e)) rrsc0)"
    by (auto simp: find_cur_best_def Let_def split: sum.splits if_splits)
  from assms q s1 v1 obtain rfsc0 impf where
    s2: "stage_scores (get_matching_blocks ev) fund dm thr oi
       (map (\<lambda>c. fst (snd c)) (compress (map (\<lambda>e. py_le thr (PInt e)) rrsc0) rem0)) = Inr (rfsc0, impf)"
    by (simp add: find_cur_best_def Let_def split: sum.splits if_splits prod.splits) 
  from assms q s1 v1 s2 have v2: "True \<in> set (map (\<lambda>e. py_le thr (PInt e)) rfsc0)"
    by (simp add: find_cur_best_def Let_def split: sum.splits if_splits prod.splits)
  from assms q s1 v1 s2 v2 have fin: "finalize (np ev) top_n oi
       (compress (map (\<lambda>e. py_le thr (PInt e)) rfsc0) (compress (map (\<lambda>e. py_le thr (PInt e)) rrsc0) rem0))
       (compress (map (\<lambda>e. py_le thr (PInt e)) rfsc0) (compress (map (\<lambda>e. py_le thr (PInt e)) rrsc0) rrsc0))
       (compress (map (\<lambda>e. py_le thr (PInt e)) rfsc0) rfsc0)
       (compress (map (\<lambda>e. py_le thr (PInt e)) rfsc0)
          (map2 (\<or>) (compress (map (\<lambda>e. py_le thr (PInt e)) rrsc0) imp0) impf)) = Inr res"
    by (simp add: find_cur_best_def Let_def split: sum.splits if_splits prod.splits)
  from q s1 s2 fin v2 show ?thesis by (rule that)
qed

lemma finalize_map:
  fixes rem :: "'id cand list"
  assumes fin: "finalize lib top_n oi rem (map R rem) (map F rem)
                  (if oi then map I rem else []) = Inr res"
    and ok: "argsort_ok (argsort lib)" "argpartition_ok (argpartition lib)"
  shows "res = map (\<lambda>c. (case c of (r, f, p) \<Rightarrow> r @ '' : '' @ f,
                          projr (weighted_score (R c) (F c)),
                          (case c of (r, f, p) \<Rightarrow> p),
                          if oi \<and> I c then ''OR'' else []))
                   (take_idx rem (pos_top lib top_n (map (\<lambda>c. projr (weighted_score (R c) (F c))) rem)))
       \<and> (\<forall>c \<in> set rem. weighted_score (R c) (F c) = Inr (projr (weighted_score (R c) (F c))))"
proof -
  let ?W = "\<lambda>c. projr (weighted_score (R c) (F c))"
  from fin obtain ws where ws: "weighted_scores (map R rem) (map F rem) = Inr ws"
    by (auto simp: finalize_def split: sum.splits)
  from weighted_scores_map [OF ws] have wsmap: "ws = map ?W rem"
    and wok: "\<forall>c \<in> set rem. weighted_score (R c) (F c) = Inr (?W c)" by simp_all
  define tp where "tp = pos_top lib top_n ws"
  have rng: "\<forall>i \<in> set tp. i < length rem"
    using pos_top_in_range [OF ok, of top_n ws] by (simp add: tp_def wsmap)
  define sel where "sel = take_idx rem tp"
  have len: "length sel = length tp" by (simp add: sel_def take_idx_def)
  have t1: "take_idx ws tp = map ?W sel"
    using rng by (simp add: wsmap take_idx_map sel_def)
  have t2: "take_idx (map I rem) tp = map I sel"
    using rng by (simp add: take_idx_map sel_def)
  have t3: "replicate (length tp) ([] :: string) = map (\<lambda>c. []) sel"
    by (simp add: len [symmetric] map_replicate_const)
  from fin ws have "res = zip (map (\<lambda>(r, f, p). r @ '' : '' @ f) sel)
        (zip (take_idx ws tp) (zip (map (\<lambda>(r, f, p). p) sel)
          (if oi then map (\<lambda>imp. if imp then ''OR'' else []) (take_idx (map I rem) tp)
           else replicate (length tp) [])))"
    by (cases oi) (auto simp: finalize_def Let_def tp_def sel_def)
  then have "res = map (\<lambda>c. (case c of (r, f, p) \<Rightarrow> r @ '' : '' @ f, ?W c,
                          (case c of (r, f, p) \<Rightarrow> p), if oi \<and> I c then ''OR'' else [])) sel"
    by (cases oi) (simp_all add: t1 t2 t3 zip_map_same comp_def)
  with wok show ?thesis by (simp add: sel_def tp_def wsmap)
qed

lemma quick_loop_map:
  assumes "quick_loop fus thr cs = Inr valid" and "ready q dm False fus" and "ready q dm False fus0"
    and "FuzzyScorer to_match NoneVal dm False = Inr fus0"
  shows "valid = map (\<lambda>c. py_le thr (PInt (projr (quick_pair dm to_match (Str c))))) cs"
  using assms(1,2)
proof (induction cs arbitrary: fus valid)
  case Nil
  then show ?case by simp
next
  case (Cons c cs)
  from Cons.prems(1) obtain fus1 qv rest where
    s: "set_choice fus (Str c) = Inr fus1" and c: "real_quick_ratio fus1 = Inr qv"
    and l: "quick_loop fus1 thr cs = Inr rest" and v: "valid = py_le thr (PInt qv) # rest"
    by (auto split: sum.splits)
  have r1: "ready q dm False fus1" using Cons.prems(2) s by (rule set_choice_keeps_ready)
  have "set_choice fus0 (Str c) = Inr fus1"
    using s by (simp add: set_choice_ready [OF Cons.prems(2)] set_choice_ready [OF assms(3)])
  then have "quick_pair dm to_match (Str c) = Inr qv"
    using c by (simp add: quick_pair_def assms(4))
  with Cons.IH [OF l r1] v show ?case by simp
qed

lemma quick_filter_map:
  assumes "quick_filter (Str q) dm thr cs = Inr valid"
  shows "valid = map (\<lambda>c. py_le thr (PInt (quick_score dm q c))) cs"
proof -
  obtain fus where f: "FuzzyScorer (Str q) NoneVal dm False = Inr fus"
    by (simp add: FuzzyScorer_False)
  from FuzzyScorer_ready [OF f] f have rf: "ready (Str q) dm False fus"
    by (simp add: FuzzyScorer_False) (auto simp: ready_def)
  from assms f have "quick_loop fus thr cs = Inr valid" by (simp add: quick_filter_def)
  from quick_loop_map [OF this rf rf f] show ?thesis by (simp add: quick_score_def)
qed

lemma quick_stage_filter:
  fixes cs :: "'id cand list"
  assumes "quick_stage (Str reg) (Str fund) dm thr (Pool cs) = Inr rem"
  shows "rem = filter (\<lambda>c. py_le thr (PInt (quick_score dm reg (fst c)))
                           \<and> py_le thr (PInt (quick_score dm fund (fst (snd c))))) cs"
proof -
  from assms obtain v1 rem1 v2 where
    q1: "quick_filter (Str reg) dm thr (map fst cs) = Inr v1"
    and b1: "bool_index v1 cs = Inr rem1"
    and q2: "quick_filter (Str fund) dm thr (map (\<lambda>c. fst (snd c)) rem1) = Inr v2"
    and b2: "bool_index v2 rem1 = Inr rem"
    by (auto simp: quick_stage_def split: sum.splits)
  have "rem1 = compress v1 cs" using b1 by (auto simp: bool_index_def split: if_splits)
  also have "v1 = map (\<lambda>c. py_le thr (PInt (quick_score dm reg (fst c)))) cs"
    using quick_filter_map [OF q1] by (simp add: comp_def)
  finally have r1: "rem1 = filter (\<lambda>c. py_le thr (PInt (quick_score dm reg (fst c)))) cs"
    by (simp only: compress_filter)
  have "rem = compress v2 rem1" using b2 by (auto simp: bool_index_def split: if_splits)
  also have "v2 = map (\<lambda>c. py_le thr (PInt (quick_score dm fund (fst (snd c))))) rem1"
    using quick_filter_map [OF q2] by (simp add: comp_def)
  finally have "rem = filter (\<lambda>c. py_le thr (PInt (quick_score dm fund (fst (snd c))))) rem1"
    by (simp only: compress_filter)
  then show ?thesis by (simp add: r1 conj_commute)
qed

lemma find_cur_best_char:
  fixes cs :: "'id cand list"
  assumes run: "find_cur_best ev (Str reg) (Str fund) (Pool cs) top_n thr dm True oi = Inr (Some res)"
    and ok: "argsort_ok (argsort (np ev))" "argpartition_ok (argpartition (np ev))"
  shows "\<exists>rem. rem = filter (passes (get_matching_blocks ev) dm thr oi reg fund) cs \<and> rem \<noteq> []
     \<and> (\<forall>c \<in> set rem. survivor (get_matching_blocks ev) dm thr oi reg fund c)
     \<and> res = map (entry_of (get_matching_blocks ev) dm thr oi reg fund)
           (take_idx rem (pos_top (np ev) top_n
              (map (\<lambda>c. fst (snd (entry_of (get_matching_blocks ev) dm thr oi reg fund c))) rem)))"
proof -
  let ?al = "get_matching_blocks ev"
  let ?p = "\<lambda>e. py_le thr (PInt e)"
  let ?R = "\<lambda>c :: 'id cand. stage_score ?al dm thr oi reg (fst c)"
  let ?F = "\<lambda>c :: 'id cand. stage_score ?al dm thr oi fund (fst (snd c))"
  let ?I = "\<lambda>c :: 'id cand. stage_improved ?al dm thr reg (fst c)"
  let ?J = "\<lambda>c :: 'id cand. stage_improved ?al dm thr fund (fst (snd c))"
  from run obtain rem0 rrsc0 imp0 rfsc0 impf where
    q: "quick_stage (Str reg) (Str fund) dm thr (Pool cs) = Inr rem0"
    and s1: "stage_scores ?al (Str reg) dm thr oi (map fst rem0) = Inr (rrsc0, imp0)"
    and s2: "stage_scores ?al (Str fund) dm thr oi
       (map (\<lambda>c. fst (snd c)) (compress (map ?p rrsc0) rem0)) = Inr (rfsc0, impf)"
    and fin: "finalize (np ev) top_n oi
       (compress (map ?p rfsc0) (compress (map ?p rrsc0) rem0))
       (compress (map ?p rfsc0) (compress (map ?p rrsc0) rrsc0))
       (compress (map ?p rfsc0) rfsc0)
       (compress (map ?p rfsc0) (map2 (\<or>) (compress (map ?p rrsc0) imp0) impf)) = Inr res"
    and v2: "True \<in> set (map ?p rfsc0)"
    by (rule find_cur_best_SomeE)
  define rem1 where "rem1 = filter (\<lambda>c. ?p (?R c)) rem0"
  define rem2 where "rem2 = filter (\<lambda>c. ?p (?F c)) rem1"
  note m1 = stage_scores_map [OF s1]
  have rr: "rrsc0 = map ?R rem0" using m1 by (simp add: comp_def)
  have i0: "imp0 = (if oi then map ?I rem0 else [])" using m1 by (simp add: comp_def)
  have c1: "compress (map ?p rrsc0) rem0 = rem1"
    using compress_filter [of "\<lambda>c. ?p (?R c)" rem0] by (simp add: rr rem1_def comp_def)
  have v1eq: "map ?p rrsc0 = map (\<lambda>c. ?p (?R c)) rem0" by (simp add: rr)
  have rr1: "compress (map ?p rrsc0) rrsc0 = map ?R rem1"
    using compress_map [of "map ?p rrsc0" ?R rem0] by (simp add: rr [symmetric] c1)
  have i1: "compress (map ?p rrsc0) imp0 = (if oi then map ?I rem1 else [])"
    using compress_map [of "map ?p rrsc0" ?I rem0] by (simp add: i0 c1 compress_Nil)
  note m2 = stage_scores_map [OF s2 [unfolded c1]]
  have rf: "rfsc0 = map ?F rem1" using m2 by (simp add: comp_def)
  have jf: "impf = (if oi then map ?J rem1 else [])" using m2 by (simp add: comp_def)
  have c2: "compress (map ?p rfsc0) rem1 = rem2"
    using compress_filter [of "\<lambda>c. ?p (?F c)" rem1] by (simp add: rf rem2_def comp_def)
  have rr2: "compress (map ?p rfsc0) (map ?R rem1) = map ?R rem2"
    using compress_map [of "map ?p rfsc0" ?R rem1] by (simp add: c2)
  have rf2: "compress (map ?p rfsc0) rfsc0 = map ?F rem2"
    using compress_map [of "map ?p rfsc0" ?F rem1] by (simp add: rf [symmetric] c2)
  have ij: "compress (map ?p rfsc0) (map2 (\<or>) (compress (map ?p rrsc0) imp0) impf)
            = (if oi then map (\<lambda>c. ?I c \<or> ?J c) rem2 else [])"
    using compress_map [of "map ?p rfsc0" "\<lambda>c. ?I c \<or> ?J c" rem1]
    by (simp add: i1 jf map2_map_map c2 compress_Nil)
  from fin have fin': "finalize (np ev) top_n oi rem2 (map ?R rem2) (map ?F rem2)
      (if oi then map (\<lambda>c. ?I c \<or> ?J c) rem2 else []) = Inr res"
    by (simp only: c1 c2 rr1 rr2 rf2 ij)
  note fm = finalize_map [OF fin' ok]
  have sub: "rem2 = filter (passes ?al dm thr oi reg fund) cs"
    unfolding rem2_def rem1_def quick_stage_filter [OF q]
    by (simp add: passes_def conj_ac split_beta cong: filter_cong)
  have ne: "rem2 \<noteq> []"
  proof -
    from v2 obtain c where "c \<in> set rem1" "?p (?F c)" by (auto simp: rf)
    then have "c \<in> set rem2" by (simp add: rem2_def)
    then show ?thesis by auto
  qed
  have surv: "\<forall>c \<in> set rem2. survivor ?al dm thr oi reg fund c"
  proof
    fix c assume c: "c \<in> set rem2"
    then have c1: "c \<in> set rem1" and c0: "c \<in> set rem0" by (simp_all add: rem2_def rem1_def)
    obtain r f p where cd: "c = (r, f, p)" by (cases c)
    from c0 cd have r0: "r \<in> set (map fst rem0)" by force
    from c1 cd have f1: "f \<in> set (map (\<lambda>c. fst (snd c)) rem1)" by force
    from c cd have "?p (?R c)" "?p (?F c)" by (auto simp: rem2_def rem1_def)
    moreover from m1 r0 have "score_pair ?al dm False (Str reg) (Str r) = Inr (raw_score ?al dm reg r)"
      by blast
    moreover from m2 f1 have "score_pair ?al dm False (Str fund) (Str f) = Inr (raw_score ?al dm fund f)"
      by blast
    moreover from m1 r0 have "oi \<and> raw_score ?al dm reg r \<noteq> 100
        \<and> \<not> raw_score ?al dm reg r < half_valid_threshold thr
        \<longrightarrow> score_pair ?al dm True (Str reg) (Str r) = Inr (token_score ?al dm reg r)"
      by blast
    moreover from m2 f1 have "oi \<and> raw_score ?al dm fund f \<noteq> 100
        \<and> \<not> raw_score ?al dm fund f < half_valid_threshold thr
        \<longrightarrow> score_pair ?al dm True (Str fund) (Str f) = Inr (token_score ?al dm fund f)"
      by blast
    moreover from fm c have "weighted_score (?R c) (?F c) = Inr (projr (weighted_score (?R c) (?F c)))"
      by blast
    ultimately show "survivor ?al dm thr oi reg fund c"
      by (simp add: survivor_def cd)
  qed
  have e: "entry_of ?al dm thr oi reg fund
      = (\<lambda>c :: 'id cand. (case c of (r, f, p) \<Rightarrow> r @ '' : '' @ f,
                          projr (weighted_score (?R c) (?F c)),
                          (case c of (r, f, p) \<Rightarrow> p),
                          if oi \<and> (?I c \<or> ?J c) then ''OR'' else []))"
    by (rule ext) (simp add: entry_of_def split: prod.splits)
  have "res = map (entry_of ?al dm thr oi reg fund)
           (take_idx rem2 (pos_top (np ev) top_n
              (map (\<lambda>c. fst (snd (entry_of ?al dm thr oi reg fund c))) rem2)))"
    using fm by (simp add: e)
  with sub ne surv show ?thesis by blast
qed

section \<open>Thresholds, sorting and selection\<close>

lemma score_pair_range:
  assumes "score_pair al dm st to_match c = Inr sc" and "0 \<le> exact_val dm"
  shows "0 \<le> sc \<and> sc \<le> 100"
proof -
  from assms(1) obtain fus fus1 fus2 where
    f: "FuzzyScorer to_match NoneVal dm st = Inr fus" and s: "set_choice fus c = Inr fus1"
    and c: "compute_score al fus1 = Inr (sc, fus2)"
    by (auto simp: score_pair_def split: sum.splits)
  from FuzzyScorer_ready [OF f] s have "ready (seq2 fus) dm st fus1" by (rule set_choice_keeps_ready)
  then have "digit_multiplier fus1 = dm" by (simp add: ready_def)
  with c assms(2) show ?thesis by (intro compute_score_range) auto
qed

lemma pow2_le_half: "e \<le> 51 \<Longrightarrow> pow2 (e - 52) \<le> 1 / 2"
  using pow2_mono [of "e - 52" "- 1"] by (simp add: pow2_def)

lemma int_grid:
  assumes "e \<le> 52"
  shows "of_int n = of_int (n * 2 ^ nat (52 - e)) * pow2 (e - 52)"
proof -
  define j where "j = nat (52 - e)"
  with assms have j: "e - 52 = - int j" by simp
  have "pow2 (- int j) * 2 ^ j = 1"
    using pow2_add [of "- int j" "int j"] by (simp add: pow2_nat pow2_def)
  then show ?thesis unfolding j_def [symmetric] j by (simp add: mult.assoc mult.commute)
qed

lemma half_valid_threshold_int:
  assumes "0 \<le> t" and "t < 2 ^ 50"
  shows "half_valid_threshold (PInt t) = t div 3"
proof (cases "t = 0")
  case True
  then show ?thesis by (simp add: half_valid_threshold_def round_double_def)
next
  case False
  with assms have tpos: "0 < t" by simp
  define x :: rat where "x = of_int t / 3"
  define k where "k = t div 3"
  define u where "u = pow2 (ilog2 \<bar>x\<bar> - 52)"
  have xpos: "0 < x" using tpos by (simp add: x_def)
  have xnz: "x \<noteq> 0" and ab: "\<bar>x\<bar> = x" using xpos by simp_all
  have "(of_int t :: rat) < of_int (2 ^ 50)" using assms(2) by (simp only: of_int_less_iff)
  then have xlt: "x < 2 ^ 50" by (simp add: x_def)
  then have x53: "\<bar>x\<bar> < 2 ^ 53" using xpos by simp
  have tk: "t = 3 * k + t mod 3" by (simp add: k_def)
  have lo: "of_int k \<le> x"
  proof -
    have "3 * k \<le> t" by (simp add: k_def)
    then have "(of_int (3 * k) :: rat) \<le> of_int t" by (simp only: of_int_le_iff)
    then show ?thesis by (simp add: x_def)
  qed
  from x53 lo have ge: "of_int k \<le> round_double x" by (rule round_double_ge_int)
  have hi: "x \<le> of_int (k + 1) - 1 / 3"
  proof -
    have "t mod 3 < 3" by simp
    with tk have "t \<le> 3 * k + 2" by linarith
    then have "(of_int t :: rat) \<le> of_int (3 * k + 2)" by (simp only: of_int_le_iff)
    then show ?thesis by (simp add: x_def)
  qed
  have e: "ilog2 \<bar>x\<bar> < 50" using ilog2_less [of x 50] xpos xlt by (simp add: ab pow2_def)
  then have grid: "of_int (k + 1) = of_int ((k + 1) * 2 ^ nat (52 - ilog2 \<bar>x\<bar>)) * pow2 (ilog2 \<bar>x\<bar> - 52)"
    by (intro int_grid) simp
  have "pow2 (ilog2 \<bar>x\<bar> - 52) \<le> 1 / 2" using e by (intro pow2_le_half) simp
  with hi have "x < of_int (k + 1) - pow2 (ilog2 \<bar>x\<bar> - 52) / 2" by simp
  from round_double_grid_less [OF xnz grid this] have lt: "round_double x < of_int (k + 1)" .
  have "\<lfloor>round_double x\<rfloor> = k"
    using ge lt by (intro floor_unique) auto
  moreover have "0 \<le> round_double x" using xpos by (intro round_double_nonneg) simp
  ultimately show ?thesis using tpos by (simp add: half_valid_threshold_def x_def k_def)
qed

lemma argsort_ok_stable: "argsort_ok stable_argsort"
  by (simp add: argsort_ok_def stable_argsort_def sorted_sort_key)

lemma argpartition_ok_stable: "argpartition_ok (\<lambda>xs k. stable_argsort xs)"
proof -
  have "xs ! (stable_argsort xs ! i) \<le> xs ! (stable_argsort xs ! j)"
    if "i \<le> j" "j < length xs" for xs :: "int list" and i j
  proof -
    have s: "sorted (map (\<lambda>i. xs ! i) (stable_argsort xs))"
      and l: "length (stable_argsort xs) = length xs"
      by (simp_all add: stable_argsort_def sorted_sort_key)
    from sorted_nth_mono [OF s, of i j] that l show ?thesis by simp
  qed
  then show ?thesis
    by (auto simp: argpartition_ok_def stable_argsort_def)
qed

lemma stage_score_spec:
  assumes "0 \<le> raw_score al dm q c"
  shows "stage_score al dm thr True q c
           = spec_stage_score (half_valid_threshold thr) (raw_score al dm q c) (token_score al dm q c)"
    and "stage_improved al dm thr q c
           = spec_improved (half_valid_threshold thr) (raw_score al dm q c) (token_score al dm q c)"
  using assms
  by (auto simp: stage_score_def stage_improved_def spec_stage_score_def spec_improved_def
      token_entry_def Let_def)

lemma take_idx_subset: "\<forall>i \<in> set idx. i < length xs \<Longrightarrow> set (take_idx xs idx) \<subseteq> set xs"
  by (auto simp: take_idx_def)

lemma find_cur_best_entries:
  fixes cs :: "'id cand list"
  assumes run: "find_cur_best ev (Str reg) (Str fund) (Pool cs) top_n thr dm True oi = Inr (Some res)"
    and ok: "argsort_ok (argsort (np ev))" "argpartition_ok (argpartition (np ev))"
    and e: "e \<in> set res"
  shows "\<exists>c \<in> set cs. survivor (get_matching_blocks ev) dm thr oi reg fund c
           \<and> e = entry_of (get_matching_blocks ev) dm thr oi reg fund c"
proof -
  from find_cur_best_char [OF run ok] obtain rem where
    sub: "rem = filter (passes (get_matching_blocks ev) dm thr oi reg fund) cs" and surv: "\<forall>c \<in> set rem. survivor (get_matching_blocks ev) dm thr oi reg fund c"
    and res: "res = map (entry_of (get_matching_blocks ev) dm thr oi reg fund)
           (take_idx rem (pos_top (np ev) top_n
              (map (\<lambda>c. fst (snd (entry_of (get_matching_blocks ev) dm thr oi reg fund c))) rem)))"
    by blast
  have inc: "set (take_idx rem (pos_top (np ev) top_n
              (map (\<lambda>c. fst (snd (entry_of (get_matching_blocks ev) dm thr oi reg fund c))) rem)))
          \<subseteq> set rem"
    using pos_top_in_range [OF ok, of top_n
        "map (\<lambda>c. fst (snd (entry_of (get_matching_blocks ev) dm thr oi reg fund c))) rem"]
    by (intro take_idx_subset) simp
  from e res obtain c where c: "c \<in> set (take_idx rem (pos_top (np ev) top_n
              (map (\<lambda>c. fst (snd (entry_of (get_matching_blocks ev) dm thr oi reg fund c))) rem)))"
    and ec: "e = entry_of (get_matching_blocks ev) dm thr oi reg fund c" by auto
  from c inc have cr: "c \<in> set rem" by blast
  then have "c \<in> set cs" by (simp add: sub)
  with cr surv ec show ?thesis by blast
qed

lemma stage_score_range:
  assumes raw: "score_pair al dm False (Str q) (Str c) = Inr (raw_score al dm q c)"
    and tok: "oi \<and> raw_score al dm q c \<noteq> 100 \<and> \<not> raw_score al dm q c < half_valid_threshold thr
              \<longrightarrow> score_pair al dm True (Str q) (Str c) = Inr (token_score al dm q c)"
    and dm: "0 \<le> exact_val dm"
  shows "0 \<le> stage_score al dm thr oi q c \<and> stage_score al dm thr oi q c \<le> 100"
proof -
  note r = score_pair_range [OF raw dm]
  show ?thesis
  proof (cases "oi \<and> raw_score al dm q c \<noteq> 100 \<and> \<not> raw_score al dm q c < half_valid_threshold thr")
    case True
    with tok have "score_pair al dm True (Str q) (Str c) = Inr (token_score al dm q c)" by simp
    from score_pair_range [OF this dm] r True show ?thesis
      by (auto simp: stage_score_def token_entry_def Let_def max_def)
  next
    case False
    with r show ?thesis
      by (auto simp: stage_score_def token_entry_def Let_def)
  qed
qed

lemma weighted_score_isqrt:
  assumes "0 \<le> r" "r \<le> 100" "0 \<le> f" "f \<le> 100"
  shows "weighted_score r f = Inr (isqrt (r * f))"
proof -
  have n0: "0 \<le> r * f" using assms by simp
  have "r * f \<le> 100 * 100" using assms by (intro mult_mono) auto
  then have n1: "r * f \<le> 10000" by simp
  define n where "n = r * f"
  have "round_double (of_int n) = of_int n"
    using n0 n1 by (intro round_double_of_int) (simp add: n_def)
  then have "\<lfloor>round_double (of_int n)\<rfloor> = n" by simp
  moreover have "\<lfloor>fl_sqrt n\<rfloor> = isqrt n"
    using n0 n1 by (intro floor_fl_sqrt) (simp_all add: n_def)
  moreover have "\<not> n < 0" "\<not> 2 ^ 63 \<le> n" using n0 n1 by (simp_all add: n_def)
  ultimately have "(if r < - (2 ^ 63) \<or> 2 ^ 63 \<le> r \<or> f < - (2 ^ 63) \<or> 2 ^ 63 \<le> f
         \<or> n < 0 \<or> 2 ^ 63 \<le> n
      then Inl UndefinedCast
      else Inr \<lfloor>fl_sqrt \<lfloor>round_double (of_int n)\<rfloor>\<rfloor>) = Inr (isqrt n)"
    using assms by simp
  then show ?thesis by (simp only: weighted_score_def n_def)
qed

lemma isqrt_ge:
  assumes "0 \<le> c" "c \<le> r" "c \<le> f"
  shows "c \<le> isqrt (r * f)"
proof -
  have n0: "0 \<le> r * f" using assms by simp
  note s = isqrt_correct [OF n0]
  have "c * c \<le> r * f" using assms by (intro mult_mono) auto
  also have "\<dots> < (isqrt (r * f) + 1) * (isqrt (r * f) + 1)" using s by simp
  finally have "c * c < (isqrt (r * f) + 1) * (isqrt (r * f) + 1)" .
  then have "c < isqrt (r * f) + 1" by (rule sq_less_imp_less [rotated]) (use s in auto)
  then show ?thesis by simp
qed

lemma take_idx_rev: "take_idx xs (rev idx) = rev (take_idx xs idx)"
  by (simp add: take_idx_def rev_map)

lemma take_idx_take_idx:
  "\<forall>j \<in> set idx. j < length tp \<Longrightarrow> take_idx xs (take_idx tp idx) = take_idx (take_idx xs tp) idx"
  by (simp add: take_idx_def)

lemma pos_top_sorted:
  assumes "argsort_ok (argsort lib)"
  shows "sorted (rev (take_idx ws (pos_top lib top_n ws)))"
proof -
  have srt: "sorted (take_idx v (argsort lib v))" for v
    using assms by (simp add: argsort_ok_def take_idx_def)
  show ?thesis
  proof (cases "\<exists>n. top_n = Some n \<and> n < length ws")
    case False
    then have "pos_top lib top_n ws = rev (argsort lib ws)"
      by (auto simp: pos_top_def split: option.splits)
    then show ?thesis using srt [of ws] by (simp add: take_idx_rev)
  next
    case True
    then obtain n where n: "top_n = Some n" "n < length ws" by blast
    define part where "part = argpartition lib ws (if n = 0 then 0 else length ws - n)"
    define tp where "tp = (if n = 0 then part else drop (length part - n) part)"
    have p: "pos_top lib top_n ws = rev (take_idx tp (argsort lib (take_idx ws tp)))"
      using n by (simp add: pos_top_def Let_def tp_def part_def)
    have "\<forall>j \<in> set (argsort lib (take_idx ws tp)). j < length tp"
      using argsort_set [OF assms, of "take_idx ws tp"] by (simp add: take_idx_def)
    then have "take_idx ws (take_idx tp (argsort lib (take_idx ws tp)))
                = take_idx (take_idx ws tp) (argsort lib (take_idx ws tp))"
      by (rule take_idx_take_idx)
    then show ?thesis using srt [of "take_idx ws tp"] by (simp add: p take_idx_rev)
  qed
qed

lemma pos_top_length:
  assumes "argsort_ok (argsort lib)" and "argpartition_ok (argpartition lib)" and "0 < n"
  shows "length (pos_top lib (Some n) ws) \<le> n"
proof (cases "n < length ws")
  case False
  then show ?thesis using argsort_length [OF assms(1), of ws] by (simp add: pos_top_def)
next
  case True
  define part where "part = argpartition lib ws (length ws - n)"
  have "length ws - n < length ws" using True assms(3) by simp
  from argpartition_set(2) [OF assms(2) this] have "length part = length ws" by (simp add: part_def)
  then have "length (drop (length part - n) part) = n" using True by simp
  then show ?thesis
    using True assms(3) argsort_length [OF assms(1), of "take_idx ws (drop (length part - n) part)"]
    by (simp add: pos_top_def Let_def part_def take_idx_def)
qed

lemma take_idx_perm:
  assumes "mset idx = mset [0..<length xs]"
  shows "mset (take_idx xs idx) = mset xs"
proof -
  have "mset (take_idx xs idx) = image_mset (\<lambda>i. xs ! i) (mset idx)"
    by (simp add: take_idx_def)
  also have "\<dots> = image_mset (\<lambda>i. xs ! i) (mset [0..<length xs])" by (simp only: assms)
  also have "\<dots> = mset (map (\<lambda>i. xs ! i) [0..<length xs])" by simp
  also have "\<dots> = mset xs" by (simp only: map_nth)
  finally show ?thesis .
qed

lemma pos_top_all:
  assumes "argsort_ok (argsort lib)" and "top_n = None \<or> (\<exists>n. top_n = Some n \<and> length ws \<le> n)"
  shows "mset (pos_top lib top_n ws) = mset [0..<length ws]"
proof -
  from assms(2) have "pos_top lib top_n ws = rev (argsort lib ws)"
    by (auto simp: pos_top_def)
  then show ?thesis using assms(1) by (simp add: argsort_ok_def)
qed

section \<open>Bad queries, empty pools, batches and the quick ratio\<close>

lemma compute_score_empty:
  "seq1 fus = Str [] \<Longrightarrow> seq2 fus = Str [] \<Longrightarrow> compute_score al fus = Inr (100, fus)"
  "seq1 fus = Str a \<Longrightarrow> seq2 fus = Str b \<Longrightarrow> (a = []) \<noteq> (b = [])
     \<Longrightarrow> compute_score al fus = Inr (0, fus)"
  by (auto simp: compute_score_def)

lemma round_double_pos: "0 < x \<Longrightarrow> 0 < round_double x"
  using round_double_pos_bounds [of x] pow2_pos [of "ilog2 x"] by simp

lemma real_quick_ratio_total:
  assumes "seq1 fus = Str a" and "seq2 fus = Str b"
  shows "\<exists>q. real_quick_ratio fus = Inr q"
proof (cases "a = [] \<and> b = []")
  case True
  with assms show ?thesis by (simp add: real_quick_ratio_def)
next
  case False
  then have "0 < length a + length b" by auto
  then have "(0 :: int) < int (length a + length b)" by (simp only: of_nat_0_less_iff)
  then have "0 < (of_int (int (length a + length b)) :: rat)" by (simp only: of_int_0_less_iff)
  then have "round_double (of_int (int (length a + length b))) \<noteq> 0"
    using round_double_pos by fastforce
  with assms False show ?thesis by (auto simp: real_quick_ratio_def)
qed

lemma real_quick_ratio_TypeError:
  "seq1 fus = Str a \<Longrightarrow> seq2 fus = NoneVal \<or> seq2 fus = NaN \<Longrightarrow> real_quick_ratio fus = Inl TypeError"
  by (auto simp: real_quick_ratio_def)

lemma quick_loop_valid:
  assumes "ready (Str q) dm False fus"
  shows "\<exists>v. quick_loop fus thr cs = Inr v \<and> length v = length cs"
  using assms
proof (induction cs arbitrary: fus)
  case Nil
  then show ?case by simp
next
  case (Cons c cs)
  from set_choice_ready [OF Cons.prems, of "Str c"] obtain fus1 where
    s: "set_choice fus (Str c) = Inr fus1" and s1: "seq1 fus1 = Str c" "seq2 fus1 = Str q"
    by simp
  have r1: "ready (Str q) dm False fus1" using Cons.prems s by (rule set_choice_keeps_ready)
  from real_quick_ratio_total [OF s1] obtain qv where qv: "real_quick_ratio fus1 = Inr qv" by blast
  from Cons.IH [OF r1] obtain v where "quick_loop fus1 thr cs = Inr v" "length v = length cs" by blast
  with s qv show ?case by simp
qed

lemma quick_loop_invalid:
  assumes "ready q dm False fus" and "q = NoneVal \<or> q = NaN" and "cs \<noteq> []"
  shows "quick_loop fus thr cs = Inl TypeError"
proof -
  from assms(3) obtain c rest where cs: "cs = c # rest" by (cases cs) auto
  from set_choice_ready [OF assms(1), of "Str c"] obtain fus1 where
    s: "set_choice fus (Str c) = Inr fus1" and s1: "seq1 fus1 = Str c" "seq2 fus1 = q"
    by simp
  from real_quick_ratio_TypeError [OF s1(1)] s1(2) assms(2)
  have "real_quick_ratio fus1 = Inl TypeError" by simp
  with s cs show ?thesis by simp
qed

lemma quick_filter_cases:
  "(\<exists>v. quick_filter (Str q) dm thr cs = Inr v \<and> length v = length cs)"
  "q' = NoneVal \<or> q' = NaN \<Longrightarrow> cs \<noteq> [] \<Longrightarrow> quick_filter q' dm thr cs = Inl TypeError"
  "quick_filter q' dm thr [] = Inr []"
proof -
  have r: "ready to_match dm False \<lparr>seq1 = NoneVal, seq2 = to_match, seqmat = Some (NoneVal, to_match),
           digit_multiplier = dm, sorted_token = False\<rparr>" for to_match
    by (simp add: ready_def)
  show "\<exists>v. quick_filter (Str q) dm thr cs = Inr v \<and> length v = length cs"
    using quick_loop_valid [OF r] by (simp add: quick_filter_def FuzzyScorer_False)
  show "q' = NoneVal \<or> q' = NaN \<Longrightarrow> cs \<noteq> [] \<Longrightarrow> quick_filter q' dm thr cs = Inl TypeError"
    using quick_loop_invalid [OF r] by (simp add: quick_filter_def FuzzyScorer_False)
  show "quick_filter q' dm thr [] = Inr []"
    by (simp add: quick_filter_def FuzzyScorer_False)
qed

lemma quick_stage_invalid:
  fixes cs :: "'id cand list"
  assumes "registrant = NoneVal \<or> registrant = NaN \<or> fund = NoneVal \<or> fund = NaN"
  shows "quick_stage registrant fund dm thr (Pool cs) = Inl TypeError
       \<or> quick_stage registrant fund dm thr (Pool cs) = Inl IndexError"
proof (cases "registrant = NoneVal \<or> registrant = NaN")
  case True
  show ?thesis
  proof (cases "cs = []")
    case True
    then show ?thesis by (simp add: quick_stage_def quick_filter_cases(3) bool_index_def)
  next
    case False
    with True have "quick_filter registrant dm thr (map fst cs) = Inl TypeError"
      by (intro quick_filter_cases(2)) auto
    then show ?thesis by (simp add: quick_stage_def)
  qed
next
  case False
  then obtain q where q: "registrant = Str q" by (cases registrant) auto
  from False assms have f: "fund = NoneVal \<or> fund = NaN" by simp
  from quick_filter_cases(1) [of q dm thr "map fst cs"] obtain v where
    v: "quick_filter (Str q) dm thr (map fst cs) = Inr v" by blast
  show ?thesis
  proof (cases "v = []")
    case True
    with v q show ?thesis by (simp add: quick_stage_def bool_index_def)
  next
    case False
    show ?thesis
    proof (cases "compress v cs = []")
      case True
      with v q False show ?thesis
        by (simp add: quick_stage_def bool_index_def quick_filter_cases(3))
    next
      case c: False
      with f have "quick_filter fund dm thr (map (\<lambda>c. fst (snd c)) (compress v cs)) = Inl TypeError"
        by (intro quick_filter_cases(2)) auto
      with v q False show ?thesis by (simp add: quick_stage_def bool_index_def)
    qed
  qed
qed

lemma invalid_query_quick_on:
  fixes cs :: "'id cand list"
  assumes "registrant = NoneVal \<or> registrant = NaN \<or> fund = NoneVal \<or> fund = NaN"
  shows "find_cur_best ev registrant fund (Pool cs) top_n thr dm True oi = Inr None"
  using quick_stage_invalid [OF assms, of dm thr cs] by (auto simp: find_cur_best_def)

lemma empty_pool_quick_on:
  "find_cur_best ev registrant fund (Pool []) top_n thr dm True oi = Inr None"
  "find_cur_best ev registrant fund NoPool top_n thr dm True oi = Inr None"
  by (simp_all add: find_cur_best_def quick_stage_def quick_filter_cases(3) bool_index_def)

lemma map_err_length: "map_err f xs = Inr ys \<Longrightarrow> length ys = length xs"
  by (induction xs arbitrary: ys) (auto split: sum.splits)

lemma find_best_sequential_parallel:
  "find_best ev m top_n thr dm True quick oi = find_best ev m top_n thr dm False quick oi"
  by (auto simp: find_best_def Let_def split: sum.splits)

lemma find_best_length:
  assumes "find_best ev m top_n thr dm mp quick oi = Inr out"
    and "to_matches_r m = Array rs" and "to_matches_f m = Array fs"
  shows "length out = min (length rs) (length fs)"
proof -
  from assms obtain matches where
    "map_err (\<lambda>(reg, fund). find_cur_best ev (Str reg) (Str fund) (pool_of m) top_n thr dm quick oi)
        (zip rs fs) = Inr matches"
    and out: "out = map (\<lambda>(mat, reg, fund).
                              (case mat of
                                 None \<Rightarrow> None
                               | Some l \<Rightarrow> if l = [] then None else Some (reg @ '' : '' @ fund, l)))
                           (zip matches (zip rs fs))"
    by (auto simp: find_best_def Let_def split: sum.splits if_splits)
  from map_err_length [OF this(1)] out show ?thesis by simp
qed



section \<open>Where an error can come from\<close>















section \<open>A stage in the words of the specification\<close>

lemma spec_stage_score_cong:
  assumes "raw = 100 \<or> raw < third \<or> tok = tok'"
  shows "spec_stage_score third raw tok = spec_stage_score third raw tok'"
    and "spec_improved third raw tok = spec_improved third raw tok'"
  using assms by (auto simp: spec_stage_score_def spec_improved_def)

lemma stage_scores_spec:
  assumes run: "stage_scores al (Str q) dm (PInt t) True chs = Inr (scs, imps)"
    and dm: "0 \<le> exact_val dm" and t: "0 \<le> t" "t \<le> 100"
  shows "length scs = length chs \<and> length imps = length chs
       \<and> (\<forall>i < length chs. \<exists>raw tok.
             score_pair al dm False (Str q) (Str (chs ! i)) = Inr raw
           \<and> (raw = 100 \<or> raw < t div 3
                \<or> score_pair al dm True (Str q) (Str (chs ! i)) = Inr tok)
           \<and> scs ! i = spec_stage_score (t div 3) raw tok
           \<and> imps ! i = spec_improved (t div 3) raw tok)"
proof -
  have half: "half_valid_threshold (PInt t) = t div 3"
    using t by (intro half_valid_threshold_int) auto
  from stage_scores_map [OF run] have
    sc: "scs = map (stage_score al dm (PInt t) True q) chs"
    and im: "imps = map (stage_improved al dm (PInt t) q) chs"
    and raw: "\<forall>c \<in> set chs. score_pair al dm False (Str q) (Str c) = Inr (raw_score al dm q c)"
    and tok: "\<forall>c \<in> set chs. raw_score al dm q c \<noteq> 100
                   \<and> \<not> raw_score al dm q c < t div 3 \<longrightarrow>
                 score_pair al dm True (Str q) (Str c) = Inr (token_score al dm q c)"
    by (simp_all add: half)
  have "\<exists>raw tok.
             score_pair al dm False (Str q) (Str (chs ! i)) = Inr raw
           \<and> (raw = 100 \<or> raw < t div 3
                \<or> score_pair al dm True (Str q) (Str (chs ! i)) = Inr tok)
           \<and> scs ! i = spec_stage_score (t div 3) raw tok
           \<and> imps ! i = spec_improved (t div 3) raw tok" if i: "i < length chs" for i
  proof -
    let ?c = "chs ! i"
    from i have mem: "?c \<in> set chs" by simp
    from raw mem have r: "score_pair al dm False (Str q) (Str ?c) = Inr (raw_score al dm q ?c)"
      by blast
    from score_pair_range [OF r dm] have r0: "0 \<le> raw_score al dm q ?c" by simp
    from tok mem have tk: "raw_score al dm q ?c = 100 \<or> raw_score al dm q ?c < t div 3
        \<or> score_pair al dm True (Str q) (Str ?c) = Inr (token_score al dm q ?c)" by blast
    have s: "scs ! i = spec_stage_score (t div 3) (raw_score al dm q ?c) (token_score al dm q ?c)"
      using i stage_score_spec(1) [OF r0, of "PInt t"] by (simp add: sc half)
    have m: "imps ! i = spec_improved (t div 3) (raw_score al dm q ?c) (token_score al dm q ?c)"
      using i stage_score_spec(2) [OF r0, of "PInt t"] by (simp add: im half)
    from r tk s m show ?thesis by blast
  qed
  then show ?thesis by (simp add: sc im)
qed

lemma passing_candidate_emitted:
  fixes cs :: "'id cand list"
  assumes run: "find_cur_best ev (Str reg) (Str fund) (Pool cs) top_n (PInt t) dm True True
                  = Inr (Some res)"
    and ok: "argsort_ok (argsort (np ev))" "argpartition_ok (argpartition (np ev))"
    and dm: "0 \<le> exact_val dm" and t: "0 \<le> t" "t \<le> 100"
    and tp: "top_n = None \<or> (\<exists>n. top_n = Some n \<and> length cs \<le> n)"
    and c: "(r, f, p) \<in> set cs"
    and qr: "quick_pair dm (Str reg) (Str r) = Inr q_r" "t \<le> q_r"
    and qf: "quick_pair dm (Str fund) (Str f) = Inr q_f" "t \<le> q_f"
    and rr: "score_pair (get_matching_blocks ev) dm False (Str reg) (Str r) = Inr raw_r"
    and rf: "score_pair (get_matching_blocks ev) dm False (Str fund) (Str f) = Inr raw_f"
    and tr: "raw_r = 100 \<or> raw_r < t div 3
               \<or> score_pair (get_matching_blocks ev) dm True (Str reg) (Str r) = Inr tok_r"
    and tf: "raw_f = 100 \<or> raw_f < t div 3
               \<or> score_pair (get_matching_blocks ev) dm True (Str fund) (Str f) = Inr tok_f"
    and sr: "t \<le> spec_stage_score (t div 3) raw_r tok_r"
    and sf: "t \<le> spec_stage_score (t div 3) raw_f tok_f"
  shows "\<exists>w. weighted_score (spec_stage_score (t div 3) raw_r tok_r)
                              (spec_stage_score (t div 3) raw_f tok_f) = Inr w
           \<and> (r @ '' : '' @ f, w, p,
                if spec_improved (t div 3) raw_r tok_r \<or> spec_improved (t div 3) raw_f tok_f
                then ''OR'' else []) \<in> set res"
proof -
  let ?al = "get_matching_blocks ev"
  let ?E = "entry_of ?al dm (PInt t) True reg fund"
  let ?W = "\<lambda>c :: 'id cand. fst (snd (?E c))"
  have half: "half_valid_threshold (PInt t) = t div 3"
    using t by (intro half_valid_threshold_int) auto
  from find_cur_best_char [OF run ok] obtain rem where
    rem: "rem = filter (passes ?al dm (PInt t) True reg fund) cs"
    and surv: "\<forall>c \<in> set rem. survivor ?al dm (PInt t) True reg fund c"
    and res: "res = map ?E (take_idx rem (pos_top (np ev) top_n (map ?W rem)))"
    by blast
  have rawr: "raw_score ?al dm reg r = raw_r" by (simp add: raw_score_def rr)
  have rawf: "raw_score ?al dm fund f = raw_f" by (simp add: raw_score_def rf)
  from score_pair_range [OF rr dm] have r0: "0 \<le> raw_score ?al dm reg r" by (simp add: rawr)
  from score_pair_range [OF rf dm] have f0: "0 \<le> raw_score ?al dm fund f" by (simp add: rawf)
  have tkr: "raw_r = 100 \<or> raw_r < t div 3 \<or> token_score ?al dm reg r = tok_r"
    using tr by (auto simp: token_score_def)
  have tkf: "raw_f = 100 \<or> raw_f < t div 3 \<or> token_score ?al dm fund f = tok_f"
    using tf by (auto simp: token_score_def)
  have SR: "stage_score ?al dm (PInt t) True reg r = spec_stage_score (t div 3) raw_r tok_r"
    using stage_score_spec(1) [OF r0, of "PInt t"] spec_stage_score_cong(1) [OF tkr]
    by (simp add: half rawr)
  have SF: "stage_score ?al dm (PInt t) True fund f = spec_stage_score (t div 3) raw_f tok_f"
    using stage_score_spec(1) [OF f0, of "PInt t"] spec_stage_score_cong(1) [OF tkf]
    by (simp add: half rawf)
  have IR: "stage_improved ?al dm (PInt t) reg r = spec_improved (t div 3) raw_r tok_r"
    using stage_score_spec(2) [OF r0, of "PInt t"] spec_stage_score_cong(2) [OF tkr]
    by (simp add: half rawr)
  have IF: "stage_improved ?al dm (PInt t) fund f = spec_improved (t div 3) raw_f tok_f"
    using stage_score_spec(2) [OF f0, of "PInt t"] spec_stage_score_cong(2) [OF tkf]
    by (simp add: half rawf)
  have "passes ?al dm (PInt t) True reg fund (r, f, p)"
    using qr qf sr sf by (simp add: passes_def quick_score_def py_le_def SR SF)
  with c have cr: "(r, f, p) \<in> set rem" by (simp add: rem)
  with surv have "survivor ?al dm (PInt t) True reg fund (r, f, p)" by blast
  then have ws: "weighted_score (spec_stage_score (t div 3) raw_r tok_r)
                                (spec_stage_score (t div 3) raw_f tok_f)
       = Inr (projr (weighted_score (spec_stage_score (t div 3) raw_r tok_r)
                                    (spec_stage_score (t div 3) raw_f tok_f)))"
    by (simp add: survivor_def SR SF)
  have "length rem \<le> length cs" by (simp add: rem)
  with tp have "top_n = None \<or> (\<exists>n. top_n = Some n \<and> length (map ?W rem) \<le> n)" by auto
  from pos_top_all [OF ok(1) this]
  have "mset (pos_top (np ev) top_n (map ?W rem)) = mset [0..<length rem]" by simp
  then have "mset (take_idx rem (pos_top (np ev) top_n (map ?W rem))) = mset rem"
    by (rule take_idx_perm)
  then have "set (take_idx rem (pos_top (np ev) top_n (map ?W rem))) = set rem"
    by (rule mset_eq_setD)
  with cr have "?E (r, f, p) \<in> set res" by (simp add: res)
  moreover have "?E (r, f, p) = (r @ '' : '' @ f,
       projr (weighted_score (spec_stage_score (t div 3) raw_r tok_r)
                             (spec_stage_score (t div 3) raw_f tok_f)), p,
       if spec_improved (t div 3) raw_r tok_r \<or> spec_improved (t div 3) raw_f tok_f
       then ''OR'' else [])"
    by (simp add: entry_of_def SR SF IR IF)
  ultimately show ?thesis using ws by auto
qed

lemma emitted_entry_spec:
  fixes cs :: "'id cand list"
  assumes run: "find_cur_best ev (Str reg) (Str fund) (Pool cs) top_n (PInt t) dm True True
                  = Inr (Some res)"
    and ok: "argsort_ok (argsort (np ev))" "argpartition_ok (argpartition (np ev))"
    and dm: "0 \<le> exact_val dm" and t: "0 \<le> t" "t \<le> 100"
    and mem: "(label, w, p, flag) \<in> set res"
  shows "\<exists>(r, f, p') \<in> set cs. \<exists>raw_r raw_f tok_r tok_f.
             p' = p \<and> label = r @ '' : '' @ f
           \<and> score_pair (get_matching_blocks ev) dm False (Str reg) (Str r) = Inr raw_r
           \<and> score_pair (get_matching_blocks ev) dm False (Str fund) (Str f) = Inr raw_f
           \<and> (raw_r = 100 \<or> raw_r < t div 3
                \<or> score_pair (get_matching_blocks ev) dm True (Str reg) (Str r) = Inr tok_r)
           \<and> (raw_f = 100 \<or> raw_f < t div 3
                \<or> score_pair (get_matching_blocks ev) dm True (Str fund) (Str f) = Inr tok_f)
           \<and> t \<le> spec_stage_score (t div 3) raw_r tok_r
           \<and> t \<le> spec_stage_score (t div 3) raw_f tok_f
           \<and> weighted_score (spec_stage_score (t div 3) raw_r tok_r)
                             (spec_stage_score (t div 3) raw_f tok_f) = Inr w
           \<and> (flag = ''OR'' \<longleftrightarrow>
                  spec_improved (t div 3) raw_r tok_r \<or> spec_improved (t div 3) raw_f tok_f)
           \<and> (flag = ''OR'' \<or> flag = [])"
proof -
  let ?al = "get_matching_blocks ev"
  from find_cur_best_entries [OF run ok mem] obtain c where
    c: "c \<in> set cs" and surv: "survivor ?al dm (PInt t) True reg fund c"
    and ent: "(label, w, p, flag) = entry_of ?al dm (PInt t) True reg fund c" by blast
  obtain r f p' where cd: "c = (r, f, p')" by (cases c)
  have half: "half_valid_threshold (PInt t) = t div 3"
    using t by (intro half_valid_threshold_int) auto
  let ?rr = "raw_score ?al dm reg r" and ?rf = "raw_score ?al dm fund f"
  let ?tr = "token_score ?al dm reg r" and ?tf = "token_score ?al dm fund f"
  from surv cd have sr: "score_pair ?al dm False (Str reg) (Str r) = Inr ?rr"
    and sf: "score_pair ?al dm False (Str fund) (Str f) = Inr ?rf"
    and tr: "?rr = 100 \<or> ?rr < t div 3 \<or> score_pair ?al dm True (Str reg) (Str r) = Inr ?tr"
    and tf: "?rf = 100 \<or> ?rf < t div 3 \<or> score_pair ?al dm True (Str fund) (Str f) = Inr ?tf"
    and pr: "py_le (PInt t) (PInt (stage_score ?al dm (PInt t) True reg r))"
    and pf: "py_le (PInt t) (PInt (stage_score ?al dm (PInt t) True fund f))"
    and ws: "weighted_score (stage_score ?al dm (PInt t) True reg r) (stage_score ?al dm (PInt t) True fund f)
          = Inr (projr (weighted_score (stage_score ?al dm (PInt t) True reg r)
                                       (stage_score ?al dm (PInt t) True fund f)))"
    by (auto simp: survivor_def half)
  have r0: "0 \<le> ?rr" using score_pair_range [OF sr dm] by simp
  have f0: "0 \<le> ?rf" using score_pair_range [OF sf dm] by simp
  note specr = stage_score_spec [OF r0, of "PInt t", unfolded half]
  note specf = stage_score_spec [OF f0, of "PInt t", unfolded half]
  from ent cd have lab: "label = r @ '' : '' @ f" and pp: "p' = p"
    and w: "w = projr (weighted_score (stage_score ?al dm (PInt t) True reg r)
                                       (stage_score ?al dm (PInt t) True fund f))"
    and fl: "flag = (if stage_improved ?al dm (PInt t) reg r \<or> stage_improved ?al dm (PInt t) fund f
                     then ''OR'' else [])"
    by (simp_all add: entry_of_def)
  have "p' = p \<and> label = r @ '' : '' @ f
           \<and> score_pair ?al dm False (Str reg) (Str r) = Inr ?rr
           \<and> score_pair ?al dm False (Str fund) (Str f) = Inr ?rf
           \<and> (?rr = 100 \<or> ?rr < t div 3 \<or> score_pair ?al dm True (Str reg) (Str r) = Inr ?tr)
           \<and> (?rf = 100 \<or> ?rf < t div 3 \<or> score_pair ?al dm True (Str fund) (Str f) = Inr ?tf)
           \<and> t \<le> spec_stage_score (t div 3) ?rr ?tr
           \<and> t \<le> spec_stage_score (t div 3) ?rf ?tf
           \<and> weighted_score (spec_stage_score (t div 3) ?rr ?tr)
                             (spec_stage_score (t div 3) ?rf ?tf) = Inr w
           \<and> (flag = ''OR'' \<longleftrightarrow>
                  spec_improved (t div 3) ?rr ?tr \<or> spec_improved (t div 3) ?rf ?tf)
           \<and> (flag = ''OR'' \<or> flag = [])"
    using lab pp sr sf tr tf pr pf ws w fl
    by (simp add: specr specf py_le_def)
  with c cd show ?thesis by blast
qed

section \<open>The quick filter and the unbound locals\<close>

text \<open>
  \<open>rcr\<close>, \<open>rcf\<close> and \<open>rpos\<close> are assigned only inside \<open>if quick_comparison:\<close>. With the
  switch off, the registrant stage reads \<open>rcr\<close> before any assignment, and the
  \<open>UnboundLocalError\<close> is not a \<open>TypeError\<close>, so it leaves the function, whatever the query,
  the pool and the rest of the configuration.
\<close>

lemma find_cur_best_quick_off:
  "find_cur_best ev registrant fund pool top_n thr dm False oi = Inl UnboundLocalError"
  by (simp add: find_cur_best_def)

text \<open>
  C3. The funnel is claimed to return the same result with \<open>quick_comparison\<close> on and off.
  On the pool of one candidate equal to the query (threshold 90, multiplier 1) the run with
  the quick filter returns that candidate with score 100; the run without it raises
  \<open>UnboundLocalError\<close>.
\<close>

theorem quick_comparison_off_raises:
  "find_cur_best spec_env (Str ''abc fund'') (Str ''growth'')
     (Pool [(''abc fund'', ''growth'', 1 :: nat)]) None (PInt 90) (PInt 1) True False
     = Inr (Some [(''abc fund : growth'', 100, 1, [])])
   \<and> find_cur_best spec_env (Str ''abc fund'') (Str ''growth'')
     (Pool [(''abc fund'', ''growth'', 1 :: nat)]) None (PInt 90) (PInt 1) False False
     = Inl UnboundLocalError"
  by code_simp

text \<open>
  C8. A query that is not a string and an empty pool are claimed never to raise. With
  \<open>quick_comparison\<close> off both raise: shown for a valid query on the empty pool and for a
  NaN registrant on a pool of one.
\<close>

theorem empty_pool_quick_off_raises:
  "find_cur_best spec_env (Str ''abc fund'') (Str ''growth'') (Pool ([] :: nat cand list))
     None (PInt 90) (PInt 1) False False = Inl UnboundLocalError
   \<and> find_cur_best spec_env NaN (Str ''growth'') (Pool [(''abc fund'', ''growth'', 1 :: nat)])
     None (PInt 90) (PInt 1) False False = Inl UnboundLocalError"
  by code_simp

text \<open>
  C7. \<open>find_best\<close> is claimed to return exactly one entry per query. A batch of the single
  query \<open>ab:cd\<close> against two choices: \<open>preproc_string\<close> hands back the one registrant and the
  one fund as plain strings, \<open>find_best\<close> zips the two strings character by character, and
  the output has two entries, for the "queries" \<open>a : c\<close> and \<open>b : d\<close>.
\<close>

theorem single_query_batch_two_entries:
  "find_best spec_env
     (preproc id id False (FuzzyFundMatcher (StrList [''ab:cd'']) (StrList [''ab:cd'', ''a:c''])))
     (Some 3) (PInt 90) (PInt 1) False True False
   = Inr [Some (''a : c'', [(''a : c'', 100, 1, [])]), None]"
  by code_simp

section \<open>The score\<close>

text \<open>
  C1. \<open>compute_score\<close> is claimed to return \<open>floor(100 * matches / (matches + penalty))\<close>.
  The code divides first and multiplies by 100 afterwards, in floating point. For 29
  matched characters and 7 unmatched digits at multiplier 3 the penalty is 21; the double
  nearest to 29/50, times 100, rounds to a double just below 58, and \<open>int\<close> gives 57.
\<close>

theorem compute_score_rounds_below_floor:
  "score_pair spec_aligner (PInt 3) False (Str (replicate 29 CHR ''a''))
     (Str (replicate 29 CHR ''a'' @ ''1234567'')) = Inr 57
   \<and> spec_aligner (replicate 29 CHR ''a'' @ ''1234567'') (replicate 29 CHR ''a'')
       = [(0, 0, 29), (36, 29, 0)]
   \<and> (100 * 29) div (29 + 3 * 7) = (58 :: int)"
  by code_simp

text \<open>
  C2. \<open>real_quick_ratio\<close> is claimed to be an upper bound of \<open>compute_score\<close> for every
  multiplier above 0. At multiplier 0.25, \<open>ab1\<close> against \<open>ab\<close> has two matches and penalty
  0.25, so the score is 88; the quick ratio, which does not look at the multiplier, is 80.
\<close>

theorem quick_ratio_below_score:
  "score_pair spec_aligner (PFloat (1 / 4)) False (Str ''ab'') (Str ''ab1'') = Inr 88
   \<and> quick_pair (PFloat (1 / 4)) (Str ''ab'') (Str ''ab1'') = Inr 80"
  by code_simp

section \<open>Configuration\<close>




section \<open>The shape of what preproc_string returns\<close>

text \<open>
  C10. \<open>preproc_string\<close> returns \<open>None\<close> for an input of length 0, a pair of plain strings
  for exactly one input string (given in a list or on its own), and a pair of arrays, one
  element per input, for two or more.
\<close>

theorem preproc_string_shape:
  "preproc_string lo su rr (StrList []) = None
   \<and> preproc_string lo su rr (OneStr []) = None
   \<and> preproc_string lo su rr (StrList [s])
       = Some (Scalar (fst (preproc_one lo su rr s)), Scalar (snd (preproc_one lo su rr s)))
   \<and> (s \<noteq> [] \<longrightarrow> preproc_string lo su rr (OneStr s)
       = Some (Scalar (fst (preproc_one lo su rr s)), Scalar (snd (preproc_one lo su rr s))))
   \<and> (2 \<le> length ss \<longrightarrow> preproc_string lo su rr (StrList ss)
       = Some (Array (map (\<lambda>x. fst (preproc_one lo su rr x)) ss),
               Array (map (\<lambda>x. snd (preproc_one lo su rr x)) ss)))"
  by (auto simp: preproc_string_def Let_def comp_def)

theorem preproc_string_shape_witness:
  "preproc_string id id False (StrList []) = None
   \<and> preproc_string id id False (OneStr ''ab:cd'') = Some (Scalar ''ab'', Scalar ''cd'')
   \<and> preproc_string id id False (StrList [''ab:cd'', ''a : c''])
       = Some (Array [''ab'', ''a''], Array [''cd'', ''c''])"
  using preproc_string_shape [of id id False "''ab:cd''" "[''ab:cd'', ''a : c'']"]
  by (simp add: preproc_one_def split_colon_def strip_def isspace_def)

section \<open>Symmetry of the score\<close>

lemma diff_positions_mirror:
  "diff_positions cb ca (map mirror bs) = prod.swap (diff_positions ca cb bs)"
  by (induction bs arbitrary: ca cb) (auto simp: mirror_def split: prod.splits)

lemma block_matches_mirror: "block_matches (map mirror bs) = block_matches bs"
  by (induction bs) (auto simp: block_matches_def mirror_def split: prod.splits)

lemma add_penalty_int:
  "add_penalty (PInt d) s (PInt p) is =
     (if \<forall>i \<in> set is. i < length s
      then Inr (PInt (p + sum_list (map (\<lambda>i. if isdigit (s ! i) then d else 1) is)))
      else Inl IndexError)"
  by (induction "is" arbitrary: p) (auto simp: not_less)

lemma score_blocks_mirror:
  "score_blocks (PInt d) b a (map mirror bs) = score_blocks (PInt d) a b bs"
  by (cases "diff_positions 0 0 bs")
     (auto simp: score_blocks_def diff_positions_mirror block_matches_mirror add_penalty_int
        Let_def add.commute add.left_commute)

text \<open>
  C9, amended: for an integer multiplier the score does not depend on which string is the
  query and which the candidate, as long as the aligner returns for \<open>(b, a)\<close> the mirror
  image of the blocks it returns for \<open>(a, b)\<close>.
\<close>

theorem compute_score_symmetric_on_mirrored_blocks:
  assumes "al b a = map mirror (al a b)"
  shows "score_pair al (PInt d) False (Str a) (Str b) = score_pair al (PInt d) False (Str b) (Str a)"
  using assms
  by (auto simp: score_pair_def FuzzyScorer_def set_choice_def compute_score_def
        score_blocks_mirror split: sum.splits)

theorem compute_score_symmetric_on_mirrored_blocks_witness:
  "spec_aligner ''abc'' ''ab'' = map mirror (spec_aligner ''ab'' ''abc'')
   \<and> score_pair spec_aligner (PInt 3) False (Str ''ab'') (Str ''abc'') = Inr 66
   \<and> score_pair spec_aligner (PInt 3) False (Str ''abc'') (Str ''ab'') = Inr 66"
proof -
  have h: "spec_aligner ''abc'' ''ab'' = map mirror (spec_aligner ''ab'' ''abc'')"
    by code_simp
  have v: "score_pair spec_aligner (PInt 3) False (Str ''ab'') (Str ''abc'') = Inr 66"
    by code_simp
  from compute_score_symmetric_on_mirrored_blocks
         [where al = spec_aligner and a = "''ab''" and b = "''abc''" and d = 3] v h
  show ?thesis
    by simp
qed

text \<open>
  C9, as claimed: \<open>compute_score(a, b) = compute_score(b, a)\<close> for all strings. The
  aligner of the specification breaks ties by the earliest start in its first argument, so
  its blocks for \<open>(b, a)\<close> are not always the mirror image: \<open>tide\<close> and \<open>diet\<close> score 14 one
  way round and 33 the other.
\<close>

theorem compute_score_asymmetric:
  "score_pair spec_aligner (PInt 1) False (Str ''diet'') (Str ''tide'') = Inr 14
   \<and> score_pair spec_aligner (PInt 1) False (Str ''tide'') (Str ''diet'') = Inr 33"
  by code_simp

section \<open>Order irrelevance\<close>

text \<open>
  A third of the threshold at work, on the query \<open>b a\<close> and the candidate \<open>a b\<close>, whose raw
  score is 20 and whose token-sorted score is 100. At threshold 63 a third is 21, the
  token-sorted score is not taken and the candidate is dropped.
\<close>

lemma below_a_third_no_token_score:
  "stage_scores spec_aligner (Str ''b a'') (PInt 1) (PInt 63) True [''a b'', ''b a'', ''zzz'']
     = Inr ([20, 100, 0], [False, False, False])
   \<and> score_pair spec_aligner (PInt 1) True (Str ''b a'') (Str ''a b'') = Inr 100
   \<and> find_cur_best spec_env (Str ''b a'') (Str ''x'')
        (Pool [(''a b'', ''x'', 7 :: nat), (''b a'', ''x'', 8), (''zzz'', ''x'', 9)])
        None (PInt 63) (PInt 1) True True
     = Inr (Some [(''b a : x'', 100, 8, [])])"
  by code_simp

text \<open>
  C5. With \<open>order_irrelevance\<close> on, an integer threshold \<open>t\<close> from 0 to 100 and a multiplier
  that is not negative.

  One stage: whenever \<open>stage_scores\<close> returns, it returns one score and one improvement mark
  for each candidate it was given. The score is the raw score when that is 100 or below
  \<open>floor(t / 3)\<close>, and otherwise the maximum of the raw and the token-sorted score; the mark
  is set exactly when the token-sorted score was taken and is strictly higher than the raw
  score.

  The funnel, with the quick filter on and any index sort that meets numpy's contract:
  every emitted entry comes from a candidate of the pool whose two stage scores, so
  computed, reach the threshold; the emitted score is their weighted score, and the flag is
  \<open>OR\<close> exactly when the registrant stage or the fund stage improved the candidate, and is
  empty otherwise. Conversely, when \<open>top_n\<close> does not cut the list, every candidate that
  passes the quick filter and whose two stage scores reach the threshold is emitted, with
  that score and that flag.
\<close>

theorem order_irrelevance_scores_and_flags:
  fixes cs :: "'id cand list"
  assumes dm: "0 \<le> exact_val dm" and t: "0 \<le> t" "t \<le> 100"
  shows "(stage_scores al (Str q) dm (PInt t) True chs = Inr (scs, imps) \<longrightarrow>
            length scs = length chs \<and> length imps = length chs
          \<and> (\<forall>i < length chs. \<exists>raw tok.
                score_pair al dm False (Str q) (Str (chs ! i)) = Inr raw
              \<and> (raw = 100 \<or> raw < t div 3
                   \<or> score_pair al dm True (Str q) (Str (chs ! i)) = Inr tok)
              \<and> scs ! i = spec_stage_score (t div 3) raw tok
              \<and> imps ! i = spec_improved (t div 3) raw tok))
       \<and> (find_cur_best ev (Str reg) (Str fund) (Pool cs) top_n (PInt t) dm True True
              = Inr (Some res)
            \<and> argsort_ok (argsort (np ev)) \<and> argpartition_ok (argpartition (np ev)) \<longrightarrow>
            (\<forall>(label, w, p, flag) \<in> set res.
               \<exists>(r, f, p') \<in> set cs. \<exists>raw_r raw_f tok_r tok_f.
                 p' = p \<and> label = r @ '' : '' @ f
               \<and> score_pair (get_matching_blocks ev) dm False (Str reg) (Str r) = Inr raw_r
               \<and> score_pair (get_matching_blocks ev) dm False (Str fund) (Str f) = Inr raw_f
               \<and> (raw_r = 100 \<or> raw_r < t div 3
                    \<or> score_pair (get_matching_blocks ev) dm True (Str reg) (Str r) = Inr tok_r)
               \<and> (raw_f = 100 \<or> raw_f < t div 3
                    \<or> score_pair (get_matching_blocks ev) dm True (Str fund) (Str f) = Inr tok_f)
               \<and> t \<le> spec_stage_score (t div 3) raw_r tok_r
               \<and> t \<le> spec_stage_score (t div 3) raw_f tok_f
               \<and> weighted_score (spec_stage_score (t div 3) raw_r tok_r)
                                 (spec_stage_score (t div 3) raw_f tok_f) = Inr w
               \<and> (flag = ''OR'' \<longleftrightarrow>
                      spec_improved (t div 3) raw_r tok_r \<or> spec_improved (t div 3) raw_f tok_f)
               \<and> (flag = ''OR'' \<or> flag = []))
          \<and> (top_n = None \<or> (\<exists>n. top_n = Some n \<and> length cs \<le> n) \<longrightarrow>
               (\<forall>(r, f, p) \<in> set cs. \<forall>q_r q_f raw_r raw_f tok_r tok_f.
                    quick_pair dm (Str reg) (Str r) = Inr q_r \<and> t \<le> q_r
                  \<and> quick_pair dm (Str fund) (Str f) = Inr q_f \<and> t \<le> q_f
                  \<and> score_pair (get_matching_blocks ev) dm False (Str reg) (Str r) = Inr raw_r
                  \<and> score_pair (get_matching_blocks ev) dm False (Str fund) (Str f) = Inr raw_f
                  \<and> (raw_r = 100 \<or> raw_r < t div 3
                       \<or> score_pair (get_matching_blocks ev) dm True (Str reg) (Str r) = Inr tok_r)
                  \<and> (raw_f = 100 \<or> raw_f < t div 3
                       \<or> score_pair (get_matching_blocks ev) dm True (Str fund) (Str f) = Inr tok_f)
                  \<and> t \<le> spec_stage_score (t div 3) raw_r tok_r
                  \<and> t \<le> spec_stage_score (t div 3) raw_f tok_f \<longrightarrow>
                    (\<exists>w. weighted_score (spec_stage_score (t div 3) raw_r tok_r)
                                         (spec_stage_score (t div 3) raw_f tok_f) = Inr w
                       \<and> (r @ '' : '' @ f, w, p,
                            if spec_improved (t div 3) raw_r tok_r
                               \<or> spec_improved (t div 3) raw_f tok_f
                            then ''OR'' else []) \<in> set res))))"
proof (intro conjI impI)
  assume "stage_scores al (Str q) dm (PInt t) True chs = Inr (scs, imps)"
  from stage_scores_spec [OF this dm t]
  show "length scs = length chs" and "length imps = length chs"
    and "\<forall>i < length chs. \<exists>raw tok.
                score_pair al dm False (Str q) (Str (chs ! i)) = Inr raw
              \<and> (raw = 100 \<or> raw < t div 3
                   \<or> score_pair al dm True (Str q) (Str (chs ! i)) = Inr tok)
              \<and> scs ! i = spec_stage_score (t div 3) raw tok
              \<and> imps ! i = spec_improved (t div 3) raw tok"
    by blast+
next
  assume a: "find_cur_best ev (Str reg) (Str fund) (Pool cs) top_n (PInt t) dm True True
              = Inr (Some res)
            \<and> argsort_ok (argsort (np ev)) \<and> argpartition_ok (argpartition (np ev))"
  then have run: "find_cur_best ev (Str reg) (Str fund) (Pool cs) top_n (PInt t) dm True True
              = Inr (Some res)"
    and ok: "argsort_ok (argsort (np ev))" "argpartition_ok (argpartition (np ev))" by simp_all
  show "\<forall>(label, w, p, flag) \<in> set res.
               \<exists>(r, f, p') \<in> set cs. \<exists>raw_r raw_f tok_r tok_f.
                 p' = p \<and> label = r @ '' : '' @ f
               \<and> score_pair (get_matching_blocks ev) dm False (Str reg) (Str r) = Inr raw_r
               \<and> score_pair (get_matching_blocks ev) dm False (Str fund) (Str f) = Inr raw_f
               \<and> (raw_r = 100 \<or> raw_r < t div 3
                    \<or> score_pair (get_matching_blocks ev) dm True (Str reg) (Str r) = Inr tok_r)
               \<and> (raw_f = 100 \<or> raw_f < t div 3
                    \<or> score_pair (get_matching_blocks ev) dm True (Str fund) (Str f) = Inr tok_f)
               \<and> t \<le> spec_stage_score (t div 3) raw_r tok_r
               \<and> t \<le> spec_stage_score (t div 3) raw_f tok_f
               \<and> weighted_score (spec_stage_score (t div 3) raw_r tok_r)
                                 (spec_stage_score (t div 3) raw_f tok_f) = Inr w
               \<and> (flag = ''OR'' \<longleftrightarrow>
                      spec_improved (t div 3) raw_r tok_r \<or> spec_improved (t div 3) raw_f tok_f)
               \<and> (flag = ''OR'' \<or> flag = [])"
  proof (clarify)
    fix label w p flag
    assume "(label, w, p, flag) \<in> set res"
    from emitted_entry_spec [OF run ok dm t this]
    show "\<exists>(r, f, p') \<in> set cs. \<exists>raw_r raw_f tok_r tok_f.
                 p' = p \<and> label = r @ '' : '' @ f
               \<and> score_pair (get_matching_blocks ev) dm False (Str reg) (Str r) = Inr raw_r
               \<and> score_pair (get_matching_blocks ev) dm False (Str fund) (Str f) = Inr raw_f
               \<and> (raw_r = 100 \<or> raw_r < t div 3
                    \<or> score_pair (get_matching_blocks ev) dm True (Str reg) (Str r) = Inr tok_r)
               \<and> (raw_f = 100 \<or> raw_f < t div 3
                    \<or> score_pair (get_matching_blocks ev) dm True (Str fund) (Str f) = Inr tok_f)
               \<and> t \<le> spec_stage_score (t div 3) raw_r tok_r
               \<and> t \<le> spec_stage_score (t div 3) raw_f tok_f
               \<and> weighted_score (spec_stage_score (t div 3) raw_r tok_r)
                                 (spec_stage_score (t div 3) raw_f tok_f) = Inr w
               \<and> (flag = ''OR'' \<longleftrightarrow>
                      spec_improved (t div 3) raw_r tok_r \<or> spec_improved (t div 3) raw_f tok_f)
               \<and> (flag = ''OR'' \<or> flag = [])" .
  qed
  assume tp: "top_n = None \<or> (\<exists>n. top_n = Some n \<and> length cs \<le> n)"
  show "\<forall>(r, f, p) \<in> set cs. \<forall>q_r q_f raw_r raw_f tok_r tok_f.
                    quick_pair dm (Str reg) (Str r) = Inr q_r \<and> t \<le> q_r
                  \<and> quick_pair dm (Str fund) (Str f) = Inr q_f \<and> t \<le> q_f
                  \<and> score_pair (get_matching_blocks ev) dm False (Str reg) (Str r) = Inr raw_r
                  \<and> score_pair (get_matching_blocks ev) dm False (Str fund) (Str f) = Inr raw_f
                  \<and> (raw_r = 100 \<or> raw_r < t div 3
                       \<or> score_pair (get_matching_blocks ev) dm True (Str reg) (Str r) = Inr tok_r)
                  \<and> (raw_f = 100 \<or> raw_f < t div 3
                       \<or> score_pair (get_matching_blocks ev) dm True (Str fund) (Str f) = Inr tok_f)
                  \<and> t \<le> spec_stage_score (t div 3) raw_r tok_r
                  \<and> t \<le> spec_stage_score (t div 3) raw_f tok_f \<longrightarrow>
                    (\<exists>w. weighted_score (spec_stage_score (t div 3) raw_r tok_r)
                                         (spec_stage_score (t div 3) raw_f tok_f) = Inr w
                       \<and> (r @ '' : '' @ f, w, p,
                            if spec_improved (t div 3) raw_r tok_r
                               \<or> spec_improved (t div 3) raw_f tok_f
                            then ''OR'' else []) \<in> set res)"
  proof (clarify)
    fix r f p q_r q_f raw_r raw_f tok_r tok_f
    assume c: "(r, f, p) \<in> set cs"
      and qr: "quick_pair dm (Str reg) (Str r) = Inr q_r" "t \<le> q_r"
      and qf: "quick_pair dm (Str fund) (Str f) = Inr q_f" "t \<le> q_f"
      and rr: "score_pair (get_matching_blocks ev) dm False (Str reg) (Str r) = Inr raw_r"
      and rf: "score_pair (get_matching_blocks ev) dm False (Str fund) (Str f) = Inr raw_f"
      and tr: "raw_r = 100 \<or> raw_r < t div 3
               \<or> score_pair (get_matching_blocks ev) dm True (Str reg) (Str r) = Inr tok_r"
      and tf: "raw_f = 100 \<or> raw_f < t div 3
               \<or> score_pair (get_matching_blocks ev) dm True (Str fund) (Str f) = Inr tok_f"
      and sr: "t \<le> spec_stage_score (t div 3) raw_r tok_r"
      and sf: "t \<le> spec_stage_score (t div 3) raw_f tok_f"
    from passing_candidate_emitted [OF run ok dm t tp c qr qf rr rf tr tf sr sf]
    show "\<exists>w. weighted_score (spec_stage_score (t div 3) raw_r tok_r)
                                         (spec_stage_score (t div 3) raw_f tok_f) = Inr w
                       \<and> (r @ '' : '' @ f, w, p,
                            if spec_improved (t div 3) raw_r tok_r
                               \<or> spec_improved (t div 3) raw_f tok_f
                            then ''OR'' else []) \<in> set res" .
  qed
qed

theorem order_irrelevance_scores_and_flags_witness:
  "stage_scores spec_aligner (Str ''b a'') (PInt 1) (PInt 60) True [''a b'', ''b a'', ''zzz'']
     = Inr ([100, 100, 0], [True, False, False])
   \<and> (\<exists>raw tok.
          score_pair spec_aligner (PInt 1) False (Str ''b a'') (Str ([''a b'', ''b a'', ''zzz''] ! 0))
            = Inr raw
        \<and> (raw = 100 \<or> raw < 60 div 3
             \<or> score_pair spec_aligner (PInt 1) True (Str ''b a'')
                  (Str ([''a b'', ''b a'', ''zzz''] ! 0)) = Inr tok)
        \<and> [100, 100, 0] ! 0 = spec_stage_score (60 div 3) raw tok
        \<and> [True, False, False] ! 0 = spec_improved (60 div 3) raw tok)
   \<and> find_cur_best spec_env (Str ''b a'') (Str ''x'')
        (Pool [(''a b'', ''x'', 7 :: nat), (''b a'', ''x'', 8), (''zzz'', ''x'', 9)])
        None (PInt 60) (PInt 1) True True
     = Inr (Some [(''b a : x'', 100, 8, []), (''a b : x'', 100, 7, ''OR'')])
   \<and> argsort_ok (argsort (np spec_env)) \<and> argpartition_ok (argpartition (np spec_env))
   \<and> (\<exists>(r, f, p') \<in> set [(''a b'', ''x'', 7 :: nat), (''b a'', ''x'', 8), (''zzz'', ''x'', 9)].
         \<exists>raw_r raw_f tok_r tok_f.
             p' = 7 \<and> ''a b : x'' = r @ '' : '' @ f
           \<and> score_pair (get_matching_blocks spec_env) (PInt 1) False (Str ''b a'') (Str r) = Inr raw_r
           \<and> score_pair (get_matching_blocks spec_env) (PInt 1) False (Str ''x'') (Str f) = Inr raw_f
           \<and> (raw_r = 100 \<or> raw_r < 60 div 3
                \<or> score_pair (get_matching_blocks spec_env) (PInt 1) True (Str ''b a'') (Str r) = Inr tok_r)
           \<and> (raw_f = 100 \<or> raw_f < 60 div 3
                \<or> score_pair (get_matching_blocks spec_env) (PInt 1) True (Str ''x'') (Str f) = Inr tok_f)
           \<and> 60 \<le> spec_stage_score (60 div 3) raw_r tok_r
           \<and> 60 \<le> spec_stage_score (60 div 3) raw_f tok_f
           \<and> weighted_score (spec_stage_score (60 div 3) raw_r tok_r)
                             (spec_stage_score (60 div 3) raw_f tok_f) = Inr 100
           \<and> (''OR'' = ''OR'' \<longleftrightarrow>
                  spec_improved (60 div 3) raw_r tok_r \<or> spec_improved (60 div 3) raw_f tok_f)
           \<and> (''OR'' = ''OR'' \<or> ''OR'' = []))
   \<and> quick_pair (PInt 1) (Str ''b a'') (Str ''a b'') = Inr 100
   \<and> score_pair (get_matching_blocks spec_env) (PInt 1) False (Str ''b a'') (Str ''a b'') = Inr 20
   \<and> score_pair (get_matching_blocks spec_env) (PInt 1) True (Str ''b a'') (Str ''a b'') = Inr 100
   \<and> (\<exists>w. weighted_score (spec_stage_score (60 div 3) 20 100)
                          (spec_stage_score (60 div 3) 100 0) = Inr w
          \<and> (''a b'' @ '' : '' @ ''x'', w, 7 :: nat,
               if spec_improved (60 div 3) 20 100 \<or> spec_improved (60 div 3) 100 0
               then ''OR'' else [])
             \<in> set [(''b a : x'', 100, 8, []), (''a b : x'', 100, 7, ''OR'')])"
proof -
  let ?cs = "[(''a b'', ''x'', 7 :: nat), (''b a'', ''x'', 8), (''zzz'', ''x'', 9)]"
  let ?res = "[(''b a : x'', 100 :: int, 8 :: nat, [] :: string), (''a b : x'', 100, 7, ''OR'')]"
  let ?al = "get_matching_blocks spec_env"
  have strun: "stage_scores spec_aligner (Str ''b a'') (PInt 1) (PInt 60) True [''a b'', ''b a'', ''zzz'']
     = Inr ([100, 100, 0], [True, False, False])"
    by code_simp
  have run: "find_cur_best spec_env (Str ''b a'') (Str ''x'') (Pool ?cs)
        None (PInt 60) (PInt 1) True True = Inr (Some ?res)"
    by code_simp
  have ok1: "argsort_ok (argsort (np spec_env))"
    by (simp add: spec_env_def argsort_ok_stable)
  have ok2: "argpartition_ok (argpartition (np spec_env))"
    by (simp add: spec_env_def argpartition_ok_stable)
  have dm: "0 \<le> exact_val (PInt 1)" by simp
  have t1: "(0 :: int) \<le> 60" and t2: "(60 :: int) \<le> 100" by simp_all
  have qr: "quick_pair (PInt 1) (Str ''b a'') (Str ''a b'') = Inr 100" by code_simp
  have qf: "quick_pair (PInt 1) (Str ''x'') (Str ''x'') = Inr 100" by code_simp
  have rr: "score_pair ?al (PInt 1) False (Str ''b a'') (Str ''a b'') = Inr 20" by code_simp
  have rf: "score_pair ?al (PInt 1) False (Str ''x'') (Str ''x'') = Inr 100" by code_simp
  have tr: "score_pair ?al (PInt 1) True (Str ''b a'') (Str ''a b'') = Inr 100" by code_simp
  have sr: "(60 :: int) \<le> spec_stage_score (60 div 3) 20 100"
    and sf: "(60 :: int) \<le> spec_stage_score (60 div 3) 100 0"
    by (simp_all add: spec_stage_score_def)
  note th = order_irrelevance_scores_and_flags [where dm = "PInt 1" and t = 60 and al = spec_aligner
      and q = "''b a''" and chs = "[''a b'', ''b a'', ''zzz'']" and scs = "[100, 100, 0]"
      and imps = "[True, False, False]" and ev = spec_env and reg = "''b a''" and fund = "''x''"
      and cs = ?cs and top_n = None and res = ?res, OF dm t1 t2]
  from th [THEN conjunct1] strun
  have S: "length [100 :: int, 100, 0] = length [''a b'', ''b a'', ''zzz'']
         \<and> length [True, False, False] = length [''a b'', ''b a'', ''zzz'']
         \<and> (\<forall>i < length [''a b'', ''b a'', ''zzz'']. \<exists>raw tok.
                score_pair spec_aligner (PInt 1) False (Str ''b a'')
                  (Str ([''a b'', ''b a'', ''zzz''] ! i)) = Inr raw
              \<and> (raw = 100 \<or> raw < 60 div 3
                   \<or> score_pair spec_aligner (PInt 1) True (Str ''b a'')
                        (Str ([''a b'', ''b a'', ''zzz''] ! i)) = Inr tok)
              \<and> [100, 100, 0] ! i = spec_stage_score (60 div 3) raw tok
              \<and> [True, False, False] ! i = spec_improved (60 div 3) raw tok)"
    by (rule mp)
  have "(0 :: nat) < length [''a b'', ''b a'', ''zzz'']" by simp
  with S [THEN conjunct2, THEN conjunct2]
  have A: "\<exists>raw tok.
          score_pair spec_aligner (PInt 1) False (Str ''b a'') (Str ([''a b'', ''b a'', ''zzz''] ! 0))
            = Inr raw
        \<and> (raw = 100 \<or> raw < 60 div 3
             \<or> score_pair spec_aligner (PInt 1) True (Str ''b a'')
                  (Str ([''a b'', ''b a'', ''zzz''] ! 0)) = Inr tok)
        \<and> [100, 100, 0] ! 0 = spec_stage_score (60 div 3) raw tok
        \<and> [True, False, False] ! 0 = spec_improved (60 div 3) raw tok"
    by blast
  from run ok1 ok2 have hyp: "find_cur_best spec_env (Str ''b a'') (Str ''x'') (Pool ?cs)
        None (PInt 60) (PInt 1) True True = Inr (Some ?res)
      \<and> argsort_ok (argsort (np spec_env)) \<and> argpartition_ok (argpartition (np spec_env))"
    by (intro conjI)
  note R = mp [OF th [THEN conjunct2] hyp]
  have mem: "(''a b : x'', 100 :: int, 7 :: nat, ''OR'') \<in> set ?res" by simp
  from R [THEN conjunct1] mem
  have "case (''a b : x'', 100 :: int, 7 :: nat, ''OR'') of (label, w, p, flag) \<Rightarrow>
         \<exists>(r, f, p') \<in> set ?cs. \<exists>raw_r raw_f tok_r tok_f.
             p' = p \<and> label = r @ '' : '' @ f
           \<and> score_pair ?al (PInt 1) False (Str ''b a'') (Str r) = Inr raw_r
           \<and> score_pair ?al (PInt 1) False (Str ''x'') (Str f) = Inr raw_f
           \<and> (raw_r = 100 \<or> raw_r < 60 div 3
                \<or> score_pair ?al (PInt 1) True (Str ''b a'') (Str r) = Inr tok_r)
           \<and> (raw_f = 100 \<or> raw_f < 60 div 3
                \<or> score_pair ?al (PInt 1) True (Str ''x'') (Str f) = Inr tok_f)
           \<and> 60 \<le> spec_stage_score (60 div 3) raw_r tok_r
           \<and> 60 \<le> spec_stage_score (60 div 3) raw_f tok_f
           \<and> weighted_score (spec_stage_score (60 div 3) raw_r tok_r)
                             (spec_stage_score (60 div 3) raw_f tok_f) = Inr w
           \<and> (flag = ''OR'' \<longleftrightarrow>
                  spec_improved (60 div 3) raw_r tok_r \<or> spec_improved (60 div 3) raw_f tok_f)
           \<and> (flag = ''OR'' \<or> flag = [])"
    by (rule bspec)
  then have B: "\<exists>(r, f, p') \<in> set ?cs. \<exists>raw_r raw_f tok_r tok_f.
             p' = 7 \<and> ''a b : x'' = r @ '' : '' @ f
           \<and> score_pair ?al (PInt 1) False (Str ''b a'') (Str r) = Inr raw_r
           \<and> score_pair ?al (PInt 1) False (Str ''x'') (Str f) = Inr raw_f
           \<and> (raw_r = 100 \<or> raw_r < 60 div 3
                \<or> score_pair ?al (PInt 1) True (Str ''b a'') (Str r) = Inr tok_r)
           \<and> (raw_f = 100 \<or> raw_f < 60 div 3
                \<or> score_pair ?al (PInt 1) True (Str ''x'') (Str f) = Inr tok_f)
           \<and> 60 \<le> spec_stage_score (60 div 3) raw_r tok_r
           \<and> 60 \<le> spec_stage_score (60 div 3) raw_f tok_f
           \<and> weighted_score (spec_stage_score (60 div 3) raw_r tok_r)
                             (spec_stage_score (60 div 3) raw_f tok_f) = Inr 100
           \<and> (''OR'' = ''OR'' \<longleftrightarrow>
                  spec_improved (60 div 3) raw_r tok_r \<or> spec_improved (60 div 3) raw_f tok_f)
           \<and> (''OR'' = ''OR'' \<or> ''OR'' = [])"
    by (simp only: prod.case)
  have tp: "(None :: nat option) = None \<or> (\<exists>n. (None :: nat option) = Some n \<and> length ?cs \<le> n)"
    by simp
  note C0 = mp [OF R [THEN conjunct2] tp]
  have cm: "(''a b'', ''x'', 7 :: nat) \<in> set ?cs" by simp
  from bspec [OF C0 cm]
  have C1: "\<forall>q_r q_f raw_r raw_f tok_r tok_f.
                    quick_pair (PInt 1) (Str ''b a'') (Str ''a b'') = Inr q_r \<and> 60 \<le> q_r
                  \<and> quick_pair (PInt 1) (Str ''x'') (Str ''x'') = Inr q_f \<and> 60 \<le> q_f
                  \<and> score_pair ?al (PInt 1) False (Str ''b a'') (Str ''a b'') = Inr raw_r
                  \<and> score_pair ?al (PInt 1) False (Str ''x'') (Str ''x'') = Inr raw_f
                  \<and> (raw_r = 100 \<or> raw_r < 60 div 3
                       \<or> score_pair ?al (PInt 1) True (Str ''b a'') (Str ''a b'') = Inr tok_r)
                  \<and> (raw_f = 100 \<or> raw_f < 60 div 3
                       \<or> score_pair ?al (PInt 1) True (Str ''x'') (Str ''x'') = Inr tok_f)
                  \<and> 60 \<le> spec_stage_score (60 div 3) raw_r tok_r
                  \<and> 60 \<le> spec_stage_score (60 div 3) raw_f tok_f \<longrightarrow>
                    (\<exists>w. weighted_score (spec_stage_score (60 div 3) raw_r tok_r)
                                         (spec_stage_score (60 div 3) raw_f tok_f) = Inr w
                       \<and> (''a b'' @ '' : '' @ ''x'', w, 7 :: nat,
                            if spec_improved (60 div 3) raw_r tok_r
                               \<or> spec_improved (60 div 3) raw_f tok_f
                            then ''OR'' else []) \<in> set ?res)"
    by (simp only: prod.case)
  have pre: "quick_pair (PInt 1) (Str ''b a'') (Str ''a b'') = Inr 100 \<and> (60 :: int) \<le> 100
                  \<and> quick_pair (PInt 1) (Str ''x'') (Str ''x'') = Inr 100 \<and> (60 :: int) \<le> 100
                  \<and> score_pair ?al (PInt 1) False (Str ''b a'') (Str ''a b'') = Inr 20
                  \<and> score_pair ?al (PInt 1) False (Str ''x'') (Str ''x'') = Inr 100
                  \<and> ((20 :: int) = 100 \<or> (20 :: int) < 60 div 3
                       \<or> score_pair ?al (PInt 1) True (Str ''b a'') (Str ''a b'') = Inr 100)
                  \<and> ((100 :: int) = 100 \<or> (100 :: int) < 60 div 3
                       \<or> score_pair ?al (PInt 1) True (Str ''x'') (Str ''x'') = Inr 0)
                  \<and> 60 \<le> spec_stage_score (60 div 3) 20 100
                  \<and> 60 \<le> spec_stage_score (60 div 3) 100 0"
    using qr qf rr rf tr sr sf by simp
  from C1 [THEN spec, THEN spec, THEN spec, THEN spec, THEN spec, THEN spec, THEN mp, OF pre]
  have C: "\<exists>w. weighted_score (spec_stage_score (60 div 3) 20 100)
                          (spec_stage_score (60 div 3) 100 0) = Inr w
          \<and> (''a b'' @ '' : '' @ ''x'', w, 7 :: nat,
               if spec_improved (60 div 3) 20 100 \<or> spec_improved (60 div 3) 100 0
               then ''OR'' else []) \<in> set ?res" .
  from strun A run ok1 ok2 B qr rr tr C show ?thesis by (intro conjI)
qed

section \<open>The ranked result\<close>

text \<open>
  C6, as claimed: entries of equal weighted score come in the order of the pool. The index
  sort is ascending and the code reverses it; a stable sort, which numpy's default sort is
  on arrays of at most 16 elements, therefore emits equal scores in the reverse of the pool
  order. Two candidates equal to the query, at pool positions 7 and 8: 8 comes first.
\<close>

theorem ties_in_reverse_pool_order:
  "find_cur_best spec_env (Str ''ab'') (Str ''x'')
      (Pool [(''ab'', ''x'', 7 :: nat), (''ab'', ''x'', 8)]) (Some 3) (PInt 85) (PInt 1) True False
     = Inr (Some [(''ab : x'', 100, 8, []), (''ab : x'', 100, 7, [])])"
  by code_simp

text \<open>
  C6, amended: for every aligner and every index sort and partial sort that meet numpy's
  contract, a multiplier and a threshold that are not negative, and with the quick filter
  on, every entry of a result comes from a candidate of the pool that passed the quick
  filter and both thresholds; its weighted score is \<open>floor(sqrt(primary * secondary))\<close> of that
  candidate's two stage scores and is at least the threshold; the entries are in descending
  order of weighted score; there are at most \<open>top_n\<close> of them for a positive \<open>top_n\<close>; and when
  \<open>top_n\<close> is unbounded or not below the number of passing candidates, the result holds
  exactly one entry per passing candidate. Nothing is said of the order among equal scores.
\<close>

theorem funnel_result_ranked:
  fixes cs :: "'id cand list"
  assumes run: "find_cur_best ev (Str reg) (Str fund) (Pool cs) top_n thr dm True oi = Inr (Some res)"
    and ok: "argsort_ok (argsort (np ev))" "argpartition_ok (argpartition (np ev))"
    and dm: "0 \<le> exact_val dm" and thr: "0 \<le> exact_val thr"
  shows "(\<forall>(label, w, p, flag) \<in> set res. \<exists>(r, f, p') \<in> set cs.
            p' = p \<and> label = r @ '' : '' @ f
          \<and> passes (get_matching_blocks ev) dm thr oi reg fund (r, f, p')
          \<and> w = \<lfloor>sqrt (real_of_int (stage_score (get_matching_blocks ev) dm thr oi reg r
                                       * stage_score (get_matching_blocks ev) dm thr oi fund f))\<rfloor>
          \<and> exact_val thr \<le> of_int w)
       \<and> sorted (rev (map (\<lambda>(label, w, p, flag). w) res))
       \<and> (\<forall>n. top_n = Some n \<and> 0 < n \<longrightarrow> length res \<le> n)
       \<and> (top_n = None
            \<or> (\<exists>n. top_n = Some n
                  \<and> length (filter (passes (get_matching_blocks ev) dm thr oi reg fund) cs) \<le> n)
           \<longrightarrow> mset res = mset (map (entry_of (get_matching_blocks ev) dm thr oi reg fund)
                                (filter (passes (get_matching_blocks ev) dm thr oi reg fund) cs)))"
proof -
  let ?al = "get_matching_blocks ev"
  let ?E = "entry_of ?al dm thr oi reg fund"
  let ?W = "\<lambda>c :: 'id cand. fst (snd (?E c))"
  from find_cur_best_char [OF run ok] obtain rem where
    rem: "rem = filter (passes ?al dm thr oi reg fund) cs"
    and surv: "\<forall>c \<in> set rem. survivor ?al dm thr oi reg fund c"
    and res: "res = map ?E (take_idx rem (pos_top (np ev) top_n (map ?W rem)))"
    by blast
  define tp where "tp = pos_top (np ev) top_n (map ?W rem)"
  have rng: "\<forall>i \<in> set tp. i < length rem"
    using pos_top_in_range [OF ok, of top_n "map ?W rem"] by (simp add: tp_def)
  have res': "res = map ?E (take_idx rem tp)" by (simp add: res tp_def)
  have A: "\<forall>(label, w, p, flag) \<in> set res. \<exists>(r, f, p') \<in> set cs.
            p' = p \<and> label = r @ '' : '' @ f
          \<and> passes ?al dm thr oi reg fund (r, f, p')
          \<and> w = \<lfloor>sqrt (real_of_int (stage_score ?al dm thr oi reg r * stage_score ?al dm thr oi fund f))\<rfloor>
          \<and> exact_val thr \<le> of_int w"
  proof (clarify)
    fix label w p flag
    assume mem: "(label, w, p, flag) \<in> set res"
    then obtain c where c: "c \<in> set (take_idx rem tp)" and ec: "(label, w, p, flag) = ?E c"
      by (auto simp: res')
    from c take_idx_subset [OF rng] have cr: "c \<in> set rem" by blast
    then have ccs: "c \<in> set cs" and pas: "passes ?al dm thr oi reg fund c" by (simp_all add: rem)
    obtain r f p' where cd: "c = (r, f, p')" by (cases c)
    let ?R = "stage_score ?al dm thr oi reg r" and ?F = "stage_score ?al dm thr oi fund f"
    from surv cr cd have
      sr: "score_pair ?al dm False (Str reg) (Str r) = Inr (raw_score ?al dm reg r)"
      and sf: "score_pair ?al dm False (Str fund) (Str f) = Inr (raw_score ?al dm fund f)"
      and tr: "oi \<and> raw_score ?al dm reg r \<noteq> 100 \<and> \<not> raw_score ?al dm reg r < half_valid_threshold thr
           \<longrightarrow> score_pair ?al dm True (Str reg) (Str r) = Inr (token_score ?al dm reg r)"
      and tf: "oi \<and> raw_score ?al dm fund f \<noteq> 100 \<and> \<not> raw_score ?al dm fund f < half_valid_threshold thr
           \<longrightarrow> score_pair ?al dm True (Str fund) (Str f) = Inr (token_score ?al dm fund f)"
      and pr: "py_le thr (PInt ?R)" and pf: "py_le thr (PInt ?F)"
      by (auto simp: survivor_def)
    note rR = stage_score_range [OF sr tr dm] and rF = stage_score_range [OF sf tf dm]
    from rR rF have ws: "weighted_score ?R ?F = Inr (isqrt (?R * ?F))"
      by (intro weighted_score_isqrt) auto
    from ec cd have lab: "label = r @ '' : '' @ f" and pp: "p' = p"
      and w: "w = projr (weighted_score ?R ?F)" by (simp_all add: entry_of_def)
    have w': "w = isqrt (?R * ?F)" by (simp add: w ws)
    have n0: "0 \<le> ?R * ?F" using rR rF by simp
    have wsq: "w = \<lfloor>sqrt (real_of_int (?R * ?F))\<rfloor>" unfolding w' using n0 by (rule isqrt_real)
    define k where "k = \<lceil>exact_val thr\<rceil>"
    have k0: "0 \<le> k" using thr by (simp add: k_def)
    have kR: "k \<le> ?R" using pr by (simp add: k_def py_le_def ceiling_le_iff)
    have kF: "k \<le> ?F" using pf by (simp add: k_def py_le_def ceiling_le_iff)
    from isqrt_ge [OF k0 kR kF] have "k \<le> w" by (simp add: w')
    then have "(of_int k :: rat) \<le> of_int w" by simp
    moreover have "exact_val thr \<le> of_int k" by (simp add: k_def)
    ultimately have tw: "exact_val thr \<le> of_int w" by simp
    from ccs pas cd lab pp wsq tw
    show "\<exists>(r, f, p') \<in> set cs. p' = p \<and> label = r @ '' : '' @ f
          \<and> passes ?al dm thr oi reg fund (r, f, p')
          \<and> w = \<lfloor>sqrt (real_of_int (stage_score ?al dm thr oi reg r * stage_score ?al dm thr oi fund f))\<rfloor>
          \<and> exact_val thr \<le> of_int w"
      by blast
  qed
  have wl: "map (\<lambda>(label, w, p, flag). w) res = take_idx (map ?W rem) tp"
    using rng by (simp add: res' take_idx_map comp_def split_beta)
  have B: "sorted (rev (map (\<lambda>(label, w, p, flag). w) res))"
    unfolding wl tp_def using ok(1) by (rule pos_top_sorted)
  have len: "length res = length tp" by (simp add: res' take_idx_def)
  have C: "\<forall>n. top_n = Some n \<and> 0 < n \<longrightarrow> length res \<le> n"
    using pos_top_length [OF ok, of _ "map ?W rem"] by (auto simp: len tp_def)
  have D: "top_n = None \<or> (\<exists>n. top_n = Some n
                  \<and> length (filter (passes ?al dm thr oi reg fund) cs) \<le> n)
           \<longrightarrow> mset res = mset (map ?E (filter (passes ?al dm thr oi reg fund) cs))"
  proof
    assume "top_n = None \<or> (\<exists>n. top_n = Some n
                  \<and> length (filter (passes ?al dm thr oi reg fund) cs) \<le> n)"
    then have "top_n = None \<or> (\<exists>n. top_n = Some n \<and> length (map ?W rem) \<le> n)"
      by (simp add: rem)
    from pos_top_all [OF ok(1) this] have "mset tp = mset [0..<length rem]" by (simp add: tp_def)
    then have "mset (take_idx rem tp) = mset rem" by (rule take_idx_perm)
    then have "mset (map ?E (take_idx rem tp)) = mset (map ?E rem)" by (metis mset_map)
    then show "mset res = mset (map ?E (filter (passes ?al dm thr oi reg fund) cs))"
      by (simp only: res' rem)
  qed
  from A B C D show ?thesis by blast
qed

theorem funnel_result_ranked_witness:
  "find_cur_best spec_env (Str ''abcd'') (Str ''x'')
      (Pool [(''abcd'', ''x'', 1 :: nat), (''abcx'', ''x'', 2), (''abcdx'', ''x'', 3)])
      (Some 2) (PInt 50) (PInt 1) True False
     = Inr (Some [(''abcd : x'', 100, 1, []), (''abcdx : x'', 89, 3, [])])
   \<and> argsort_ok (argsort (np spec_env)) \<and> argpartition_ok (argpartition (np spec_env))
   \<and> 0 \<le> exact_val (PInt 1) \<and> 0 \<le> exact_val (PInt 50)
   \<and> (\<exists>(r, f, p') \<in> set [(''abcd'', ''x'', 1 :: nat), (''abcx'', ''x'', 2), (''abcdx'', ''x'', 3)].
            p' = 3 \<and> ''abcdx : x'' = r @ '' : '' @ f
          \<and> passes (get_matching_blocks spec_env) (PInt 1) (PInt 50) False ''abcd'' ''x'' (r, f, p')
          \<and> 89 = \<lfloor>sqrt (real_of_int
                (stage_score (get_matching_blocks spec_env) (PInt 1) (PInt 50) False ''abcd'' r
                 * stage_score (get_matching_blocks spec_env) (PInt 1) (PInt 50) False ''x'' f))\<rfloor>
          \<and> exact_val (PInt 50) \<le> of_int 89)
   \<and> sorted (rev (map (\<lambda>(label, w, p, flag). w)
        [(''abcd : x'', 100 :: int, 1 :: nat, [] :: string), (''abcdx : x'', 89, 3, [])]))
   \<and> length [(''abcd : x'', 100 :: int, 1 :: nat, [] :: string), (''abcdx : x'', 89, 3, [])] \<le> 2"
proof -
  have run: "find_cur_best spec_env (Str ''abcd'') (Str ''x'')
      (Pool [(''abcd'', ''x'', 1 :: nat), (''abcx'', ''x'', 2), (''abcdx'', ''x'', 3)])
      (Some 2) (PInt 50) (PInt 1) True False
     = Inr (Some [(''abcd : x'', 100, 1, []), (''abcdx : x'', 89, 3, [])])"
    by code_simp
  have ok1: "argsort_ok (argsort (np spec_env))"
    by (simp add: spec_env_def argsort_ok_stable)
  have ok2: "argpartition_ok (argpartition (np spec_env))"
    by (simp add: spec_env_def argpartition_ok_stable)
  have dm: "0 \<le> exact_val (PInt 1)" and thr: "0 \<le> exact_val (PInt 50)" by simp_all
  note th = funnel_result_ranked [OF run ok1 ok2 dm thr]
  have mem: "(''abcdx : x'', 89 :: int, 3 :: nat, [] :: string)
          \<in> set [(''abcd : x'', 100, 1, []), (''abcdx : x'', 89, 3, [])]" by simp
  note A0 = th [THEN conjunct1]
  from A0 mem have "case (''abcdx : x'', 89 :: int, 3 :: nat, [] :: string) of (label, w, p, flag) \<Rightarrow>
         \<exists>(r, f, p') \<in> set [(''abcd'', ''x'', 1 :: nat), (''abcx'', ''x'', 2), (''abcdx'', ''x'', 3)].
            p' = p \<and> label = r @ '' : '' @ f
          \<and> passes (get_matching_blocks spec_env) (PInt 1) (PInt 50) False ''abcd'' ''x'' (r, f, p')
          \<and> w = \<lfloor>sqrt (real_of_int
                (stage_score (get_matching_blocks spec_env) (PInt 1) (PInt 50) False ''abcd'' r
                 * stage_score (get_matching_blocks spec_env) (PInt 1) (PInt 50) False ''x'' f))\<rfloor>
          \<and> exact_val (PInt 50) \<le> of_int w"
    by (rule bspec)
  then have A: "\<exists>(r, f, p') \<in> set [(''abcd'', ''x'', 1 :: nat), (''abcx'', ''x'', 2), (''abcdx'', ''x'', 3)].
            p' = 3 \<and> ''abcdx : x'' = r @ '' : '' @ f
          \<and> passes (get_matching_blocks spec_env) (PInt 1) (PInt 50) False ''abcd'' ''x'' (r, f, p')
          \<and> 89 = \<lfloor>sqrt (real_of_int
                (stage_score (get_matching_blocks spec_env) (PInt 1) (PInt 50) False ''abcd'' r
                 * stage_score (get_matching_blocks spec_env) (PInt 1) (PInt 50) False ''x'' f))\<rfloor>
          \<and> exact_val (PInt 50) \<le> of_int 89"
    by (simp only: prod.case)
  note B = th [THEN conjunct2, THEN conjunct1]
  note C0 = th [THEN conjunct2, THEN conjunct2, THEN conjunct1]
  from C0 have C: "length [(''abcd : x'', 100 :: int, 1 :: nat, [] :: string), (''abcdx : x'', 89, 3, [])] \<le> 2"
    by simp
  from run ok1 ok2 dm thr A B C show ?thesis by (intro conjI)
qed

end
